theory Spec2Isabelle
  imports Complex_Main "HOL-Library.AList" "HOL-Library.Multiset"
begin

section \<open>Common Python data\<close>

text \<open>
  Python \<open>str\<close> values are sequences of Unicode code points; the scripts handled by
  this program are Japanese, so a string is modelled as the list of its code points.
  \<open>ascii\<close> turns an ASCII literal into such a string.
\<close>

type_synonym ustr = "int list"

definition ascii :: "string \<Rightarrow> ustr" where
  "ascii s = map of_char s"

datatype py_error = KeyError | RuntimeError ustr

text \<open>
  JSON-like values as they are stored in the untyped \<open>dict[str, Any]\<close> of the source.
  A \<open>dict\<close> keeps insertion order and has unique keys: it is an association list that
  is only ever changed through \<open>AList.update\<close> (assignment \<open>d[k] = v\<close>: an existing key
  keeps its place, a new key goes to the end).
\<close>

datatype jvalue =
    JNone
  | JBool bool
  | JInt int
  | JStr ustr
  | JList "jvalue list"
  | JDict "(ustr \<times> jvalue) list"

type_synonym jdict = "(ustr \<times> jvalue) list"

text \<open>\<open>d.update(other)\<close>: assigns every item of \<open>other\<close>, in order, into \<open>d\<close>.\<close>

fun dict_update :: "jdict \<Rightarrow> jdict \<Rightarrow> jdict" where
  "dict_update d [] = d"
| "dict_update d ((k, v) # rest) = dict_update (AList.update k v d) rest"

section \<open>job\_store.py: JobRecord and InMemoryJobStore\<close>

text \<open>
  \<open>JobRecord\<close> is the dataclass of the source. Times are abstract instants
  (\<open>utc_now()\<close> is passed in by the caller of the model as \<open>now\<close>).
\<close>

record JobRecord =
  job_id :: ustr
  status :: ustr
  stage :: ustr
  created_at :: nat
  updated_at :: nat
  topic :: ustr
  error :: "ustr option"
  result :: "jdict option"
  metrics :: jdict

type_synonym job_store = "ustr \<rightharpoonup> JobRecord"

definition create :: "job_store \<Rightarrow> nat \<Rightarrow> ustr \<Rightarrow> ustr \<Rightarrow> JobRecord \<times> job_store" where
  "create jobs now jid tp =
     (let record = \<lparr> job_id = jid, status = ascii ''queued'', stage = ascii ''queued'',
                      created_at = now, updated_at = now, topic = tp,
                      error = None, result = None, metrics = [] \<rparr>
      in (record, jobs(jid \<mapsto> record)))"

definition get :: "job_store \<Rightarrow> ustr \<Rightarrow> JobRecord option" where
  "get jobs jid = jobs jid"

text \<open>
  The keyword arguments of \<open>InMemoryJobStore.update\<close>; \<open>None\<close> is the default of
  each of them.
\<close>

record update_args =
  u_status :: "ustr option"
  u_stage :: "ustr option"
  u_error :: "ustr option"
  u_result :: "jdict option"
  u_metrics :: "jdict option"

definition no_args :: update_args where
  "no_args = \<lparr> u_status = None, u_stage = None, u_error = None,
               u_result = None, u_metrics = None \<rparr>"

text \<open>The body of \<open>update\<close> after \<open>record = self._jobs[job_id]\<close>.\<close>

definition update_record :: "nat \<Rightarrow> update_args \<Rightarrow> JobRecord \<Rightarrow> JobRecord" where
  "update_record now a record =
     (let r1 = (case u_status a of None \<Rightarrow> record | Some s \<Rightarrow> record\<lparr>status := s\<rparr>);
          r2 = (case u_stage a of None \<Rightarrow> r1 | Some s \<Rightarrow> r1\<lparr>stage := s\<rparr>);
          r3 = (case u_error a of None \<Rightarrow> r2 | Some e \<Rightarrow> r2\<lparr>error := Some e\<rparr>);
          r4 = (case u_result a of None \<Rightarrow> r3 | Some x \<Rightarrow> r3\<lparr>result := Some x\<rparr>);
          r5 = (case u_metrics a of None \<Rightarrow> r4
                | Some m \<Rightarrow> r4\<lparr>metrics := dict_update (metrics r4) m\<rparr>)
      in r5\<lparr>updated_at := now\<rparr>)"

text \<open>\<open>self._jobs[job_id]\<close> raises \<open>KeyError\<close> for an unknown job.\<close>

definition update :: "job_store \<Rightarrow> nat \<Rightarrow> ustr \<Rightarrow> update_args \<Rightarrow> py_error + (JobRecord \<times> job_store)" where
  "update jobs now jid a =
     (case jobs jid of
        None \<Rightarrow> Inl KeyError
      | Some record \<Rightarrow>
          (let r = update_record now a record in Inr (r, jobs(jid \<mapsto> r))))"

text \<open>
  A sequence of \<open>update\<close> calls, each with its instant, job id and arguments. A call
  that raises leaves the store as it was, and the later calls still run.
\<close>

fun updates :: "job_store \<Rightarrow> (nat \<times> ustr \<times> update_args) list \<Rightarrow> job_store" where
  "updates jobs [] = jobs"
| "updates jobs ((now, jid, a) # calls) =
     (case update jobs now jid a of
        Inl _ \<Rightarrow> updates jobs calls
      | Inr (_, jobs') \<Rightarrow> updates jobs' calls)"

text \<open>
  The deep merge that the interface description names: where both the stored value and
  the new value of a key are mappings they are merged key by key, recursively; any other
  new value replaces the stored one.
\<close>

fun deep_merge :: "jdict \<Rightarrow> jdict \<Rightarrow> jdict" where
  "deep_merge d [] = d"
| "deep_merge d ((k, JDict b) # rest) =
     (case map_of d k of
        Some (JDict a) \<Rightarrow> deep_merge (AList.update k (JDict (deep_merge a b)) d) rest
      | _ \<Rightarrow> deep_merge (AList.update k (JDict b) d) rest)"
| "deep_merge d ((k, v) # rest) = deep_merge (AList.update k v d) rest"

section \<open>pipeline.py: synthesis completions and the ready-chunk list\<close>

text \<open>
  A transcript line and a transcript section are the dictionaries that \<open>run_pipeline\<close>
  builds; a key that may be missing is an \<open>option\<close>. Times are integer milliseconds.
\<close>

record line =
  speaker :: ustr
  line_text :: ustr
  start_ms :: "int option"
  end_ms :: "int option"
  global_start_ms :: "int option"
  global_end_ms :: "int option"

datatype section_status = generated | ready

record transcript_section =
  section_index :: int
  section_title :: ustr
  sec_status :: section_status
  lines :: "line list"
  audio_ms :: "int option"
  sec_global_start_ms :: "int option"
  sec_global_end_ms :: "int option"

text \<open>
  One entry of \<open>stats_out["line_timings"]\<close> (\<open>None\<close>: an entry that is not a dict) and
  the statistics a synthesis call leaves in \<open>stats_out\<close>, with the defaults of the
  \<open>stats_out.get\<close> calls already applied by whoever builds the record.
\<close>

record line_timing =
  t_start_ms :: int
  t_end_ms :: int

record tts_stats =
  cache_hits :: int
  cache_misses :: int
  line_timings_ready :: bool
  timings_deferred :: bool
  line_timings :: "line_timing option list option"
  stat_audio_ms :: int

text \<open>
  What \<open>pending_tts\<close> stores for a submitted task. \<open>section_record\<close> of the source is a
  reference to the section dictionary that is also an element of \<open>transcript_sections\<close>;
  section indices are unique there, so the reference is the section index.
\<close>

record task_meta =
  m_section_index :: int
  m_section_title :: ustr
  section_filename :: ustr
  section_path :: ustr
  ready_stage_name :: ustr

text \<open>
  How a future ends: \<open>future.result()\<close> raises, or the call returned with its statistics
  and \<open>os.path.exists(section_path)\<close> is the boolean.
\<close>

datatype tts_outcome = Raised | Returned tts_stats bool

text \<open>
  The variables of \<open>run_pipeline\<close> that \<open>_consume_completed_tts\<close> reads and writes.
  Futures are numbered. Wall-clock telemetry, the provider and voice names and the stage
  events carry no control flow and are left out.
\<close>

record tts_state =
  pending_tts :: "(nat \<times> task_meta) list"
  synthesized_sections :: nat
  tts_cache_hits :: int
  tts_cache_misses :: int
  intro_failed :: bool
  timings_ready :: bool
  ready_chunks_by_index :: "(int \<times> (ustr \<times> ustr)) list"
  ready_chunk_filenames :: "ustr list"
  ready_chunk_paths :: "ustr list"
  ready_chunk_count :: nat
  ready_audio_chunks :: "ustr list"
  transcript_sections :: "transcript_section list"

text \<open>
  Lines 598-606: timings are copied index by index; the loop stops at the end of the
  section's lines and skips an entry that is not a dict.
\<close>

fun merge_line_timings :: "line list \<Rightarrow> line_timing option list \<Rightarrow> line list" where
  "merge_line_timings [] ts = []"
| "merge_line_timings (l # ls) [] = l # ls"
| "merge_line_timings (l # ls) (None # ts) = l # merge_line_timings ls ts"
| "merge_line_timings (l # ls) (Some t # ts) =
     l\<lparr>start_ms := Some (t_start_ms t), end_ms := Some (t_end_ms t)\<rparr> # merge_line_timings ls ts"

text \<open>Lines 594-610: what a successful completion writes into its section record.\<close>

definition mark_ready :: "tts_stats \<Rightarrow> transcript_section \<Rightarrow> transcript_section" where
  "mark_ready st sec =
     (let s1 = sec\<lparr>sec_status := ready\<rparr>;
          s2 = (case line_timings st of
                  None \<Rightarrow> s1
                | Some ts \<Rightarrow> s1\<lparr>lines := merge_line_timings (lines s1) ts\<rparr>)
      in if stat_audio_ms st > 0 then s2\<lparr>audio_ms := Some (stat_audio_ms st)\<rparr> else s2)"

definition update_section_record ::
  "int \<Rightarrow> (transcript_section \<Rightarrow> transcript_section) \<Rightarrow> transcript_section list \<Rightarrow> transcript_section list" where
  "update_section_record idx f secs = map (\<lambda>s. if section_index s = idx then f s else s) secs"

text \<open>Lines 565-571: the counters updated as soon as the future returned.\<close>

definition record_stats :: "tts_stats \<Rightarrow> tts_state \<Rightarrow> tts_state" where
  "record_stats st s =
     s\<lparr>tts_cache_hits := tts_cache_hits s + cache_hits st,
       tts_cache_misses := tts_cache_misses s + cache_misses st,
       timings_ready := (if timings_deferred st then False
                         else if line_timings_ready st then timings_ready s
                         else False)\<rparr>"

text \<open>
  Lines 591-621: a successful completion. The ready lists are rebuilt from the dictionary
  in the order of its sorted keys.
\<close>

definition ordered_pairs :: "(int \<times> (ustr \<times> ustr)) list \<Rightarrow> (ustr \<times> ustr) list" where
  "ordered_pairs d = map (\<lambda>k. the (map_of d k)) (sort (map fst d))"

definition store_ready :: "task_meta \<Rightarrow> tts_stats \<Rightarrow> tts_state \<Rightarrow> tts_state" where
  "store_ready meta st s =
     (let idx = m_section_index meta;
          n = (if idx \<notin> fst ` set (ready_chunks_by_index s) then synthesized_sections s + 1
               else synthesized_sections s);
          secs = update_section_record idx (mark_ready st) (transcript_sections s);
          d = AList.update idx (section_filename meta, section_path meta) (ready_chunks_by_index s);
          pairs = ordered_pairs d
      in s\<lparr>synthesized_sections := n,
           transcript_sections := secs,
           ready_chunks_by_index := d,
           ready_chunk_filenames := map fst pairs,
           ready_chunk_paths := map snd pairs,
           ready_chunk_count := length (map fst pairs),
           ready_audio_chunks := map fst pairs\<rparr>)"

text \<open>
  One iteration of \<open>for future in done\<close> (lines 550-621): the task leaves \<open>pending_tts\<close>;
  a future that is not registered is skipped.
\<close>

definition consume_one :: "tts_state \<Rightarrow> nat \<times> tts_outcome \<Rightarrow> tts_state" where
  "consume_one s ev =
     (case map_of (pending_tts s) (fst ev) of
        None \<Rightarrow> s
      | Some meta \<Rightarrow>
          (let s1 = s\<lparr>pending_tts := AList.delete (fst ev) (pending_tts s)\<rparr> in
           case snd ev of
             Raised \<Rightarrow>
               (if m_section_index meta = 0 then s1\<lparr>intro_failed := True\<rparr> else s1)
           | Returned st file_exists \<Rightarrow>
               (let s2 = record_stats st s1 in
                if \<not> file_exists
                then (if m_section_index meta = 0 then s2\<lparr>intro_failed := True\<rparr> else s2)
                else store_ready meta st s2)))"


text \<open>
  The state when the first task (the intro) has been registered, with the sections
  generated so far, and the registration of a further task by \<open>_submit_tts_task\<close>.
\<close>

definition initial_tts_state :: "transcript_section list \<Rightarrow> tts_state" where
  "initial_tts_state secs =
     \<lparr> pending_tts = [], synthesized_sections = 0, tts_cache_hits = 0, tts_cache_misses = 0,
       intro_failed = False, timings_ready = True, ready_chunks_by_index = [],
       ready_chunk_filenames = [], ready_chunk_paths = [], ready_chunk_count = 0,
       ready_audio_chunks = [], transcript_sections = secs \<rparr>"

definition submit_tts_task :: "nat \<Rightarrow> task_meta \<Rightarrow> tts_state \<Rightarrow> tts_state" where
  "submit_tts_task fut meta s = s\<lparr>pending_tts := AList.update fut meta (pending_tts s)\<rparr>"

text \<open>
  A run of the pipeline, as far as synthesis goes, is a sequence of submissions and of
  completions in the order in which \<open>_consume_completed_tts\<close> meets them; which futures
  are done at each poll, and in which order the set \<open>done\<close> is walked, is not fixed by
  the program.
\<close>

datatype tts_event = Submitted nat task_meta | Completed nat tts_outcome

fun run_tts :: "tts_state \<Rightarrow> tts_event list \<Rightarrow> tts_state" where
  "run_tts s [] = s"
| "run_tts s (Submitted fut meta # evs) = run_tts (submit_tts_task fut meta s) evs"
| "run_tts s (Completed fut out # evs) = run_tts (consume_one s (fut, out)) evs"

text \<open>A completion is a failure when the future raised or the output file is absent.\<close>

fun failed :: "tts_outcome \<Rightarrow> bool" where
  "failed Raised = True"
| "failed (Returned st file_exists) = (\<not> file_exists)"

text \<open>\<open>sorted(ready_chunks_by_index.keys())\<close>: the section indices of the ready chunks.\<close>

definition ready_indices :: "tts_state \<Rightarrow> int list" where
  "ready_indices s = sort (map fst (ready_chunks_by_index s))"

text \<open>
  Lines 947-1021: after the drain, the job raises when no chunk is ready; in the
  synchronous mode it also raises when the combined file was not produced. Otherwise the
  metrics carry the flags.
\<close>

record final_metrics =
  fm_intro_failed :: bool
  fm_ready_audio_chunks :: "ustr list"
  fm_synthesized_sections :: nat
  fm_final_audio_ready :: bool

definition finish_job :: "bool \<Rightarrow> bool \<Rightarrow> tts_state \<Rightarrow> py_error + final_metrics" where
  "finish_job defer_finalize combined s =
     (if ready_chunk_paths s = []
      then Inl (RuntimeError (ascii ''No synthesized audio chunks were produced.''))
      else if \<not> defer_finalize \<and> \<not> combined
      then Inl (RuntimeError (ascii ''Audio finalize step did not create output file.''))
      else Inr \<lparr> fm_intro_failed = intro_failed s,
                 fm_ready_audio_chunks = ready_chunk_filenames s,
                 fm_synthesized_sections = synthesized_sections s,
                 fm_final_audio_ready = (\<not> defer_finalize) \<rparr>)"

section \<open>pipeline.py: global timing reconstruction\<close>

text \<open>
  \<open>int(line.get("start_ms", 0) or 0)\<close>: a missing key, \<open>None\<close> and \<open>0\<close> all read as 0.
\<close>

definition int_or_0 :: "int option \<Rightarrow> int" where
  "int_or_0 v = (case v of None \<Rightarrow> 0 | Some n \<Rightarrow> n)"

text \<open>
  Lines 1077-1086, the loop over the lines of one section: it returns the lines with
  their global stamps and the final value of \<open>max_end\<close>.
\<close>

fun stamp_lines :: "int \<Rightarrow> int \<Rightarrow> line list \<Rightarrow> line list \<times> int" where
  "stamp_lines cursor_ms max_end [] = ([], max_end)"
| "stamp_lines cursor_ms max_end (l # ls) =
     (let start = int_or_0 (start_ms l);
          endv = int_or_0 (end_ms l);
          max_end' = (if endv > max_end then endv else max_end);
          l' = l\<lparr>global_start_ms := Some (cursor_ms + start),
                 global_end_ms := Some (cursor_ms + max endv start)\<rparr>;
          (ls', m) = stamp_lines cursor_ms max_end' ls
      in (l' # ls', m))"

text \<open>
  Lines 1072-1090, the loop over the sorted sections with the running cursor: it returns
  the stamped sections and the final cursor.
\<close>

fun stamp_sections :: "int \<Rightarrow> transcript_section list \<Rightarrow> transcript_section list \<times> int" where
  "stamp_sections cursor_ms [] = ([], cursor_ms)"
| "stamp_sections cursor_ms (sec # secs) =
     (let sec_audio_ms = int_or_0 (audio_ms sec);
          (ls', max_end) = stamp_lines cursor_ms 0 (lines sec);
          sec_len = (if sec_audio_ms > 0 then sec_audio_ms else max_end);
          sec' = sec\<lparr>lines := ls',
                     sec_global_start_ms := Some cursor_ms,
                     sec_global_end_ms := Some (cursor_ms + max sec_len 0)\<rparr>;
          (secs', c) = stamp_sections (cursor_ms + max sec_len 0) secs
      in (sec' # secs', c))"

text \<open>
  Lines 1067-1071: \<open>sorted\<close> is stable, as \<open>sort_key\<close> is; the cursor starts at 0.
\<close>

definition ordered_sections :: "transcript_section list \<Rightarrow> transcript_section list" where
  "ordered_sections secs = sort_key section_index secs"

definition global_timing :: "transcript_section list \<Rightarrow> transcript_section list" where
  "global_timing secs = fst (stamp_sections 0 (ordered_sections secs))"

text \<open>
  Reading the result: the stamps of the lines of the whole transcript in reading order
  (start then end of each line, section after section), and the local quantities the
  statements are about.
\<close>

definition line_stamps :: "line \<Rightarrow> int list" where
  "line_stamps l = [int_or_0 (global_start_ms l), int_or_0 (global_end_ms l)]"

definition transcript_stamps :: "transcript_section list \<Rightarrow> int list" where
  "transcript_stamps secs = concat (map (\<lambda>s. concat (map line_stamps (lines s))) secs)"

definition max_line_end :: "line list \<Rightarrow> int" where
  "max_line_end ls = fold (\<lambda>l m. max m (int_or_0 (end_ms l))) ls 0"

definition section_span :: "transcript_section \<Rightarrow> int" where
  "section_span sec =
     (if int_or_0 (audio_ms sec) > 0 then int_or_0 (audio_ms sec) else max_line_end (lines sec))"

text \<open>
  The span as the design text words it: the larger of the largest local line end and the
  recorded audio duration.
\<close>

definition spec_section_span :: "transcript_section \<Rightarrow> int" where
  "spec_section_span sec = max (max_line_end (lines sec)) (int_or_0 (audio_ms sec))"

text \<open>
  The local offsets of a section as the walk reads them (start, then the end it uses),
  line after line.
\<close>

definition local_offsets :: "line list \<Rightarrow> int list" where
  "local_offsets ls =
     concat (map (\<lambda>l. [int_or_0 (start_ms l), max (int_or_0 (end_ms l)) (int_or_0 (start_ms l))]) ls)"

definition well_timed :: "transcript_section \<Rightarrow> bool" where
  "well_timed sec =
     (sorted (local_offsets (lines sec)) \<and>
      list_all (\<lambda>x. 0 \<le> x \<and> x \<le> section_span sec) (local_offsets (lines sec)))"

section \<open>pipeline.py: the novelty guard\<close>

text \<open>
  Lines 730-754. The rewrite operation calls a language model, so its answers are an
  input of the model: \<open>rewrite k script\<close> is what the \<open>k\<close>-th call returns for
  \<open>script\<close>. \<open>nov\<close> is \<open>compute_section_novelty\<close> against the covered points, which do
  not change during the loop. The state of the loop is the current script, its novelty and
  \<open>dedupe_rewrite_count\<close>; the list is empty where the source has an empty list.
\<close>

record 'a guard_state =
  section_script :: 'a
  novelty :: rat
  dedupe_rewrite_count :: nat

definition rewrite_step ::
  "('a list \<Rightarrow> rat) \<Rightarrow> 'a list \<Rightarrow> 'a list guard_state \<Rightarrow> 'a list guard_state" where
  "rewrite_step nov rewritten g =
     (if rewritten \<noteq> [] \<and> rewritten \<noteq> section_script g
      then g\<lparr>section_script := rewritten,
             dedupe_rewrite_count := dedupe_rewrite_count g + 1,
             novelty := nov rewritten\<rparr>
      else g)"

text \<open>\<open>for _ in range(2)\<close> with its \<open>break\<close>: \<open>n\<close> iterations are left.\<close>

fun rewrite_loop ::
  "('a list \<Rightarrow> rat) \<Rightarrow> rat \<Rightarrow> (nat \<Rightarrow> 'a list \<Rightarrow> 'a list) \<Rightarrow> nat \<Rightarrow> nat \<Rightarrow>
   'a list guard_state \<Rightarrow> 'a list guard_state" where
  "rewrite_loop nov novelty_threshold rewrite k 0 g = g"
| "rewrite_loop nov novelty_threshold rewrite k (Suc n) g =
     (let g' = rewrite_step nov (rewrite k (section_script g)) g
      in if novelty g' \<ge> novelty_threshold then g'
         else rewrite_loop nov novelty_threshold rewrite (Suc k) n g')"

definition novelty_guard ::
  "('a list \<Rightarrow> rat) \<Rightarrow> rat \<Rightarrow> (nat \<Rightarrow> 'a list \<Rightarrow> 'a list) \<Rightarrow> nat \<Rightarrow> 'a list \<Rightarrow> 'a list guard_state" where
  "novelty_guard nov novelty_threshold rewrite rewrites script =
     (let g = \<lparr> section_script = script, novelty = nov script, dedupe_rewrite_count = rewrites \<rparr>
      in if novelty g < novelty_threshold
         then rewrite_loop nov novelty_threshold rewrite 0 2 g
         else g)"

section \<open>generator.py: the novelty score\<close>

text \<open>
  \<open>str.strip()\<close> and the pattern \<open>\s\<close> use the same class of characters, the Unicode
  white space.
\<close>

definition is_space :: "int \<Rightarrow> bool" where
  "is_space c \<longleftrightarrow>
     c \<in> {9, 10, 11, 12, 13, 28, 29, 30, 31, 32, 133, 160, 5760, 8232, 8233, 8239, 8287, 12288}
     \<or> (8192 \<le> c \<and> c \<le> 8202)"

definition strip :: "ustr \<Rightarrow> ustr" where
  "strip s = rev (dropWhile is_space (rev (dropWhile is_space s)))"

text \<open>
  \<open>re.sub(r"\s+", " ", s)\<close>: every maximal run of white space becomes one space; the flag
  says that the previous character was white space.
\<close>

fun collapse_spaces :: "bool \<Rightarrow> ustr \<Rightarrow> ustr" where
  "collapse_spaces prev [] = []"
| "collapse_spaces prev (c # cs) =
     (if is_space c
      then (if prev then collapse_spaces True cs else 32 # collapse_spaces True cs)
      else c # collapse_spaces False cs)"

definition normalize_point_text :: "ustr \<Rightarrow> ustr" where
  "normalize_point_text t = collapse_spaces False (strip t)"

definition char_ngrams :: "ustr \<Rightarrow> nat \<Rightarrow> ustr set" where
  "char_ngrams t n =
     (let s = normalize_point_text t
      in if length s < n then (if s \<noteq> [] then {s} else {})
         else set (map (\<lambda>i. take n (drop i s)) [0 ..< length s - n + 1]))"

text \<open>
  Similarities are Python floats in the source; they are quotients of two set sizes and are
  modelled as the exact rationals.
\<close>

fun best_similarity :: "ustr set \<Rightarrow> rat \<Rightarrow> ustr list \<Rightarrow> rat" where
  "best_similarity base best [] = best"
| "best_similarity base best (point # points) =
     (let other = char_ngrams point 3
      in if other = {} then best_similarity base best points
         else (let inter = card (base \<inter> other);
                   union = card (base \<union> other);
                   sim = (if union \<noteq> 0 then of_nat inter / of_nat union else 0)
               in best_similarity base (if sim > best then sim else best) points))"

definition max_similarity_to_points :: "ustr \<Rightarrow> ustr list \<Rightarrow> rat" where
  "max_similarity_to_points t points =
     (let base = char_ngrams t 3
      in if base = {} then 0 else best_similarity base 0 points)"

fun join :: "ustr \<Rightarrow> ustr list \<Rightarrow> ustr" where
  "join sep [] = []"
| "join sep [x] = x"
| "join sep (x # y # ys) = x @ sep @ join sep (y # ys)"

definition script_text :: "line list \<Rightarrow> ustr" where
  "script_text script = join [10] (map line_text script)"

text \<open>
  \<open>round(x, 4)\<close>: to the nearest multiple of 1/10000. The model rounds the exact
  rational and sends a tie to the even multiple; Python rounds the binary float that
  stands for \<open>x\<close>, which lies a little above or below the rational, so at an exact
  tie of the rational (such as 1 - 7/160 = 0.95625) the two can differ by 1/10000. The
  statements below use \<open>round4\<close> only at values that are no ties (0, 1, 2/7, 1/7).
\<close>

definition round_half_even :: "rat \<Rightarrow> int" where
  "round_half_even x =
     (let f = \<lfloor>x\<rfloor>; d = x - of_int f
      in if d < 1 / 2 then f else if d > 1 / 2 then f + 1 else if even f then f else f + 1)"

definition round4 :: "rat \<Rightarrow> rat" where
  "round4 x = of_int (round_half_even (x * 10000)) / 10000"

definition compute_section_novelty :: "line list \<Rightarrow> ustr list \<Rightarrow> rat" where
  "compute_section_novelty script covered_points =
     (let t = script_text script
      in if t = [] then 0
         else if covered_points = [] then 1
         else round4 (max 0 (1 - max_similarity_to_points t covered_points)))"

section \<open>planner.py: the agenda normalizer\<close>

text \<open>
  The raw agenda is parsed JSON from a language model. A raw node or edge that is not a
  dict is \<open>None\<close>; each field holds \<open>str(value)\<close> when the JSON value is truthy and the
  empty string when it is missing or falsy, which is all that \<open>str(x or default)\<close> reads.
\<close>

record raw_node =
  r_id :: ustr
  r_title :: ustr
  r_role :: ustr
  r_note :: ustr

record raw_edge =
  r_from :: ustr
  r_to :: ustr

record agenda_node =
  node_id :: ustr
  node_title :: ustr
  node_role :: ustr
  node_note :: ustr

record agenda_edge =
  e_from :: ustr
  e_to :: ustr

record agenda_chapter =
  chapter_id :: ustr
  chapter_title :: ustr
  node_ids :: "ustr list"

record agenda =
  a_topic :: ustr
  nodes :: "agenda_node list"
  edges :: "agenda_edge list"
  ordered_node_ids :: "ustr list"
  chapters :: "agenda_chapter list"

text \<open>Decimal digits of a number, for the f-strings \<open>n{idx+1}\<close> and \<open>c{idx}\<close>.\<close>

fun decimal :: "nat \<Rightarrow> ustr" where
  "decimal n = (if n < 10 then [48 + int n] else decimal (n div 10) @ [48 + int (n mod 10)])"

text \<open>\<open>str.lower()\<close> on the ASCII letters; role tags are ASCII words.\<close>

definition lower :: "ustr \<Rightarrow> ustr" where
  "lower s = map (\<lambda>c. if 65 \<le> c \<and> c \<le> 90 then c + 32 else c) s"

text \<open>Lines 144-161: the usable nodes; \<open>idx\<close> counts every raw entry.\<close>

fun collect_nodes :: "nat \<Rightarrow> raw_node option list \<Rightarrow> agenda_node list" where
  "collect_nodes idx [] = []"
| "collect_nodes idx (None # rest) = collect_nodes (idx + 1) rest"
| "collect_nodes idx (Some node # rest) =
     (let nid = (if r_id node \<noteq> [] then r_id node else ascii ''n'' @ decimal (idx + 1));
          title = strip (r_title node);
          role = lower (strip (if r_role node \<noteq> [] then r_role node else ascii ''point''));
          note = strip (r_note node)
      in if title = [] then collect_nodes (idx + 1) rest
         else \<lparr> node_id = nid, node_title = title, node_role = role, node_note = note \<rparr>
              # collect_nodes (idx + 1) rest)"

definition pad_templates :: "ustr \<Rightarrow> (ustr \<times> ustr) list" where
  "pad_templates tp =
     [(tp @ [0x306E, 0x80CC, 0x666F], ascii ''premise''),
      (tp @ [0x306E, 0x4E3B, 0x306A, 0x8981, 0x56E0], ascii ''cause''),
      (tp @ [0x306E, 0x5F71, 0x97FF], ascii ''effect''),
      ([0x5B9F, 0x52D9, 0x3067, 0x306E, 0x518D, 0x8A55, 0x4FA1], ascii ''reframe''),
      ([0x53CD, 0x5BFE, 0x8AD6, 0x3068, 0x5236, 0x7D04], ascii ''conflict'')]"

text \<open>Lines 179-193: the padding loop, with its \<open>break\<close> at five nodes.\<close>

fun pad_nodes :: "(ustr \<times> ustr) list \<Rightarrow> ustr set \<Rightarrow> nat \<Rightarrow> agenda_node list \<Rightarrow> agenda_node list" where
  "pad_nodes [] existing_titles next_id ns = ns"
| "pad_nodes (tpl # tpls) existing_titles next_id ns =
     (if length ns \<ge> 5 then ns
      else if fst tpl \<in> existing_titles then pad_nodes tpls existing_titles next_id ns
      else pad_nodes tpls (insert (fst tpl) existing_titles) (next_id + 1)
             (ns @ [\<lparr> node_id = ascii ''n'' @ decimal next_id, node_title = fst tpl,
                       node_role = snd tpl, node_note = [] \<rparr>]))"

text \<open>Lines 195-203: edges between known, different nodes.\<close>

fun collect_edges :: "ustr set \<Rightarrow> raw_edge option list \<Rightarrow> agenda_edge list" where
  "collect_edges ids [] = []"
| "collect_edges ids (None # rest) = collect_edges ids rest"
| "collect_edges ids (Some edge # rest) =
     (let src = strip (r_from edge); dst = strip (r_to edge)
      in if src \<in> ids \<and> dst \<in> ids \<and> src \<noteq> dst
         then \<lparr> e_from = src, e_to = dst \<rparr> # collect_edges ids rest
         else collect_edges ids rest)"

definition fallback_nodes :: "ustr \<Rightarrow> agenda_node list" where
  "fallback_nodes tp =
     [\<lparr> node_id = ascii ''n1'', node_title = tp @ [0x306E, 0x80CC, 0x666F],
        node_role = ascii ''premise'', node_note = [] \<rparr>,
      \<lparr> node_id = ascii ''n2'', node_title = tp @ [0x306E, 0x4E3B, 0x306A, 0x8981, 0x56E0],
        node_role = ascii ''cause'', node_note = [] \<rparr>,
      \<lparr> node_id = ascii ''n3'', node_title = tp @ [0x306E, 0x5F71, 0x97FF],
        node_role = ascii ''effect'', node_note = [] \<rparr>,
      \<lparr> node_id = ascii ''n4'', node_title = [0x5B9F, 0x52D9, 0x3067, 0x306E, 0x518D, 0x8A55, 0x4FA1],
        node_role = ascii ''reframe'', node_note = [] \<rparr>]"

definition fallback_edges :: "agenda_edge list" where
  "fallback_edges =
     [\<lparr> e_from = ascii ''n1'', e_to = ascii ''n2'' \<rparr>,
      \<lparr> e_from = ascii ''n2'', e_to = ascii ''n3'' \<rparr>,
      \<lparr> e_from = ascii ''n3'', e_to = ascii ''n4'' \<rparr>]"

subsection \<open>topological\_order\<close>

text \<open>
  \<open>indeg\<close> is a dict from node id to integer and \<open>graph\<close> a \<open>defaultdict(list)\<close>; both are
  association lists. Lines 231-237 build them.
\<close>

definition init_indeg :: "ustr list \<Rightarrow> (ustr \<times> int) list" where
  "init_indeg ids = fold (\<lambda>nid d. AList.update nid 0 d) ids []"

definition get_or :: "('k \<times> 'v) list \<Rightarrow> 'k \<Rightarrow> 'v \<Rightarrow> 'v" where
  "get_or d k dflt = (case map_of d k of None \<Rightarrow> dflt | Some v \<Rightarrow> v)"

fun add_edges ::
  "agenda_edge list \<Rightarrow> (ustr \<times> ustr list) list \<Rightarrow> (ustr \<times> int) list \<Rightarrow>
   (ustr \<times> ustr list) list \<times> (ustr \<times> int) list" where
  "add_edges [] graph indeg = (graph, indeg)"
| "add_edges (edge # rest) graph indeg =
     (let src = e_from edge; dst = e_to edge;
          graph' = AList.update src (get_or graph src [] @ [dst]) graph;
          indeg1 = AList.update dst (get_or indeg dst 0 + 1) indeg;
          indeg2 = (case map_of indeg1 src of None \<Rightarrow> AList.update src 0 indeg1 | Some _ \<Rightarrow> indeg1)
      in add_edges rest graph' indeg2)"

text \<open>
  Lines 244-247, the loop over the successors of \<open>cur\<close>: \<open>indeg[nxt] -= 1\<close> raises
  \<open>KeyError\<close> for a key that is not in the dict.
\<close>

fun relax ::
  "ustr list \<Rightarrow> (ustr \<times> int) list \<Rightarrow> ustr list \<Rightarrow> py_error + ((ustr \<times> int) list \<times> ustr list)" where
  "relax [] indeg q = Inr (indeg, q)"
| "relax (nxt # rest) indeg q =
     (case map_of indeg nxt of
        None \<Rightarrow> Inl KeyError
      | Some d \<Rightarrow>
          relax rest (AList.update nxt (d - 1) indeg) (if d - 1 = 0 then q @ [nxt] else q))"

text \<open>Lines 241-247, \<open>while q\<close>: the head of the queue is popped and appended to the order.\<close>

function kahn_loop ::
  "(ustr \<times> ustr list) list \<Rightarrow> (ustr \<times> int) list \<Rightarrow> ustr list \<Rightarrow> ustr list \<Rightarrow> py_error + ustr list" where
  "kahn_loop graph indeg [] ordered = Inr ordered"
| "kahn_loop graph indeg (cur # q) ordered =
     (case relax (get_or graph cur []) indeg q of
        Inl e \<Rightarrow> Inl e
      | Inr (indeg', q') \<Rightarrow> kahn_loop graph indeg' q' (ordered @ [cur]))"
  by pat_completeness auto
termination
proof (relation "measure (\<lambda>(graph, indeg, q, ordered). length q + sum_list (map (\<lambda>p. nat (snd p)) indeg))")
  show "wf (measure (\<lambda>(graph, indeg, q, ordered). length q + sum_list (map (\<lambda>p. nat (snd p)) indeg)))"
    by simp
next
  fix graph :: "(ustr \<times> ustr list) list" and indeg :: "(ustr \<times> int) list"
    and cur :: ustr and q ordered :: "ustr list" and x indeg' q'
  assume r: "relax (get_or graph cur []) indeg q = Inr x" and x: "(indeg', q') = x"
  have upd: "sum_list (map (\<lambda>p. nat (snd p)) (AList.update k v al)) + nat d
             = sum_list (map (\<lambda>p. nat (snd p)) al) + nat v"
    if "map_of al k = Some d" for k :: ustr and v d :: int and al
    using that by (induction al) (auto split: if_splits)
  have "length q2 + sum_list (map (\<lambda>p. nat (snd p)) d2)
        \<le> length q1 + sum_list (map (\<lambda>p. nat (snd p)) d1)"
    if "relax xs d1 q1 = Inr (d2, q2)" for xs d1 q1 d2 q2
    using that
  proof (induction xs arbitrary: d1 q1)
    case Nil
    then show ?case by simp
  next
    case (Cons nxt rest)
    from Cons.prems obtain d where d: "map_of d1 nxt = Some d"
      by (auto split: option.splits)
    let ?d1 = "AList.update nxt (d - 1) d1"
    let ?q1 = "if d - 1 = 0 then q1 @ [nxt] else q1"
    from Cons.prems d have "relax rest ?d1 ?q1 = Inr (d2, q2)" by simp
    from Cons.IH [OF this]
    have "length q2 + sum_list (map (\<lambda>p. nat (snd p)) d2)
          \<le> length ?q1 + sum_list (map (\<lambda>p. nat (snd p)) ?d1)" .
    moreover from upd [OF d, of "d - 1"]
    have "length ?q1 + sum_list (map (\<lambda>p. nat (snd p)) ?d1)
          \<le> length q1 + sum_list (map (\<lambda>p. nat (snd p)) d1)"
      by (auto split: if_splits)
    ultimately show ?case by linarith
  qed
  from this [of "get_or graph cur []" indeg q indeg' q'] r x
  show "((graph, indeg', q', ordered @ [cur]), (graph, indeg, cur # q, ordered))
        \<in> measure (\<lambda>(graph, indeg, q, ordered). length q + sum_list (map (\<lambda>p. nat (snd p)) indeg))"
    by simp
qed

text \<open>Lines 229-251.\<close>

definition topological_order :: "agenda_node list \<Rightarrow> agenda_edge list \<Rightarrow> py_error + ustr list" where
  "topological_order ns es =
     (let ids = map node_id ns;
          (graph, indeg) = add_edges es [] (init_indeg ids);
          q = filter (\<lambda>nid. get_or indeg nid 0 = 0) ids
      in case kahn_loop graph indeg q [] of
           Inl e \<Rightarrow> Inl e
         | Inr ordered \<Rightarrow> Inr (if length ordered \<noteq> length ids then ids else ordered))"

subsection \<open>Chapters and the normalizer\<close>

text \<open>Lines 54-62: chunks of two, a trailing single node joins the chunk before it.\<close>

fun pair_chunks :: "'a list \<Rightarrow> 'a list list" where
  "pair_chunks [] = []"
| "pair_chunks [x] = [[x]]"
| "pair_chunks (x # y # rest) = [x, y] # pair_chunks rest"

definition merge_trailing :: "'a list list \<Rightarrow> 'a list list" where
  "merge_trailing chunks =
     (if length chunks \<ge> 2 \<and> length (last chunks) = 1
      then butlast (butlast chunks) @ [last (butlast chunks) @ last chunks]
      else chunks)"

fun number_chapters :: "nat \<Rightarrow> agenda_node list list \<Rightarrow> agenda_chapter list" where
  "number_chapters idx [] = []"
| "number_chapters idx (chunk # rest) =
     (let ids = map node_id (filter (\<lambda>n. node_id n \<noteq> []) chunk);
          titles = map (\<lambda>n. strip (node_title n)) (filter (\<lambda>n. node_title n \<noteq> []) chunk);
          joined = join (ascii '' / '') (filter (\<lambda>t. t \<noteq> []) (take 2 titles));
          head = [0x7B2C] @ decimal idx @ [0x7AE0];
          title_seed = (if joined \<noteq> [] then joined else head)
      in \<lparr> chapter_id = ascii ''c'' @ decimal idx,
           chapter_title = head @ ascii '': '' @ title_seed,
           node_ids = ids \<rparr> # number_chapters (idx + 1) rest)"

text \<open>
  Lines 45-52: \<open>by_id\<close> is a dict comprehension, so of two nodes with one id the later
  one is found.
\<close>

definition build_chapters_from_ordered_nodes :: "agenda_node list \<Rightarrow> ustr list \<Rightarrow> agenda_chapter list" where
  "build_chapters_from_ordered_nodes ns ordered_ids =
     (let by_id = map_of (rev (map (\<lambda>n. (node_id n, n)) ns));
          found = concat (map (\<lambda>i. case by_id i of None \<Rightarrow> [] | Some n \<Rightarrow> [n]) ordered_ids);
          ordered = (if found = [] then ns else found)
      in number_chapters 1 (merge_trailing (pair_chunks ordered)))"

record raw_agenda =
  nodes_raw :: "raw_node option list"
  edges_raw :: "raw_edge option list"

text \<open>Lines 136-226.\<close>

definition normalize_agenda :: "raw_agenda \<Rightarrow> ustr \<Rightarrow> py_error + agenda" where
  "normalize_agenda ag tp =
     (let ns0 = collect_nodes 0 (nodes_raw ag);
          ns1 = (if length ns0 > 7 then take 7 ns0 else ns0);
          ns2 = (if length ns1 < 5
                 then pad_nodes (pad_templates tp) (set (map node_title ns1)) (length ns1 + 1) ns1
                 else ns1);
          es2 = collect_edges (set (map node_id ns2)) (edges_raw ag);
          ns3 = (if ns2 = [] then fallback_nodes tp else ns2);
          es3 = (if ns2 = [] then fallback_edges else es2)
      in case topological_order ns3 es3 of
           Inl e \<Rightarrow> Inl e
         | Inr ordered_ids \<Rightarrow>
             Inr \<lparr> a_topic = tp, nodes = ns3, edges = es3, ordered_node_ids = ordered_ids,
                   chapters = build_chapters_from_ordered_nodes ns3 ordered_ids \<rparr>)"

section \<open>Invariants used in the proofs\<close>

text \<open>
  The ready lists agree with the dictionary of ready chunks: they list its values in the
  order of its sorted keys.
\<close>

definition ready_inv :: "tts_state \<Rightarrow> bool" where
  "ready_inv s \<longleftrightarrow>
     distinct (map fst (ready_chunks_by_index s))
     \<and> ready_chunk_filenames s = map (\<lambda>k. fst (the (map_of (ready_chunks_by_index s) k))) (ready_indices s)
     \<and> ready_chunk_paths s = map (\<lambda>k. snd (the (map_of (ready_chunks_by_index s) k))) (ready_indices s)
     \<and> ready_audio_chunks s = ready_chunk_filenames s
     \<and> ready_chunk_count s = length (ready_chunks_by_index s)"

section \<open>Graph notions used in the statements\<close>

text \<open>
  The edges as pairs, the successor list that \<open>graph[u]\<close> holds, the number of edges
  into \<open>v\<close> whose source is not in \<open>P\<close>, and the nodes that lie on a cycle.
\<close>

definition edge_pairs :: "agenda_edge list \<Rightarrow> (ustr \<times> ustr) list" where
  "edge_pairs es = map (\<lambda>e. (e_from e, e_to e)) es"

definition succs :: "(ustr \<times> ustr) list \<Rightarrow> ustr \<Rightarrow> ustr list" where
  "succs E u = map snd (filter (\<lambda>p. fst p = u) E)"

definition indeg_of :: "(ustr \<times> ustr) list \<Rightarrow> ustr set \<Rightarrow> ustr \<Rightarrow> int" where
  "indeg_of E P v = int (length (filter (\<lambda>p. snd p = v \<and> fst p \<notin> P) E))"

definition on_cycle :: "(ustr \<times> ustr) list \<Rightarrow> ustr set" where
  "on_cycle E = {v. (v, v) \<in> (set E)\<^sup>+}"

text \<open>
  The invariant of the \<open>while q\<close> loop for node ids \<open>K\<close>: no id is queued or emitted
  twice, every queued or emitted id has no pending predecessor, \<open>indeg\<close> counts the edges
  from the ids not yet emitted, and no id on a cycle is queued or emitted.
\<close>

definition kahn_inv ::
  "(ustr \<times> ustr) list \<Rightarrow> ustr set \<Rightarrow> (ustr \<times> int) list \<Rightarrow> ustr list \<Rightarrow> ustr list \<Rightarrow> bool" where
  "kahn_inv E K indeg q ordered \<longleftrightarrow>
     fst ` set indeg = K
     \<and> distinct (ordered @ q)
     \<and> set (ordered @ q) \<subseteq> K
     \<and> list_all (\<lambda>v. get_or indeg v 0 \<le> 0) (ordered @ q)
     \<and> (\<forall>v. v \<in> K \<longrightarrow> get_or indeg v 0 = indeg_of E (set ordered) v)
     \<and> set (ordered @ q) \<inter> on_cycle E = {}"

text \<open>What the statements read off an agenda: node ids, order and edges.\<close>

definition agenda_summary :: "agenda \<Rightarrow> ustr list \<times> ustr list \<times> (ustr \<times> ustr) list" where
  "agenda_summary a = (map node_id (nodes a), ordered_node_ids a, edge_pairs (edges a))"

section \<open>Sample data\<close>

text \<open>Small concrete values on which the statements below are run.\<close>

definition sample_meta :: "int \<Rightarrow> ustr \<Rightarrow> task_meta" where
  "sample_meta idx name =
     \<lparr> m_section_index = idx, m_section_title = name, section_filename = name @ ascii ''.wav'',
       section_path = ascii ''out/'' @ name @ ascii ''.wav'', ready_stage_name = ascii ''section_ready'' \<rparr>"

definition sample_stats :: tts_stats where
  "sample_stats =
     \<lparr> cache_hits = 1, cache_misses = 2, line_timings_ready = True, timings_deferred = False,
       line_timings = None, stat_audio_ms = 1000 \<rparr>"

definition sample_line :: "int option \<Rightarrow> int option \<Rightarrow> line" where
  "sample_line s e =
     \<lparr> speaker = ascii ''A'', line_text = ascii ''x'', start_ms = s, end_ms = e,
       global_start_ms = None, global_end_ms = None \<rparr>"

definition sample_section :: "int \<Rightarrow> line list \<Rightarrow> int option \<Rightarrow> transcript_section" where
  "sample_section idx ls a =
     \<lparr> section_index = idx, section_title = [], sec_status = generated, lines = ls,
       audio_ms = a, sec_global_start_ms = None, sec_global_end_ms = None \<rparr>"

definition sample_text_line :: "ustr \<Rightarrow> line" where
  "sample_text_line t =
     \<lparr> speaker = ascii ''A'', line_text = t, start_ms = None, end_ms = None,
       global_start_ms = None, global_end_ms = None \<rparr>"

definition sample_nov :: "line list \<Rightarrow> rat" where
  "sample_nov script = compute_section_novelty script [ascii ''abcdefgh'']"

definition sample_rewrite :: "nat \<Rightarrow> line list \<Rightarrow> line list" where
  "sample_rewrite k script =
     (if k = 0 then [sample_text_line (ascii ''abcdefgz'')]
      else [sample_text_line (ascii ''abcdefghi'')])"

definition sample_raw_node :: "string \<Rightarrow> string \<Rightarrow> raw_node option" where
  "sample_raw_node i t = Some \<lparr> r_id = ascii i, r_title = ascii t, r_role = [], r_note = [] \<rparr>"

definition sample_raw_edge :: "string \<Rightarrow> string \<Rightarrow> raw_edge option" where
  "sample_raw_edge a b = Some \<lparr> r_from = ascii a, r_to = ascii b \<rparr>"

definition sample_node :: "string \<Rightarrow> agenda_node" where
  "sample_node i = \<lparr> node_id = ascii i, node_title = ascii i, node_role = ascii ''point'', node_note = [] \<rparr>"

definition sample_edge :: "string \<Rightarrow> string \<Rightarrow> agenda_edge" where
  "sample_edge a b = \<lparr> e_from = ascii a, e_to = ascii b \<rparr>"

definition sample_cyclic_agenda :: raw_agenda where
  "sample_cyclic_agenda =
     \<lparr> nodes_raw = [sample_raw_node ''a'' ''A'', sample_raw_node ''b'' ''B'', sample_raw_node ''c'' ''C''],
       edges_raw = [sample_raw_edge ''a'' ''b'', sample_raw_edge ''b'' ''c'', sample_raw_edge ''c'' ''b''] \<rparr>"

definition sample_dup_agenda :: raw_agenda where
  "sample_dup_agenda =
     \<lparr> nodes_raw = [sample_raw_node ''a'' ''A1'', sample_raw_node ''a'' ''A2'', sample_raw_node ''c'' ''C'',
                    sample_raw_node ''b'' ''B'', sample_raw_node ''d'' ''D''],
       edges_raw = [sample_raw_edge ''a'' ''b'', sample_raw_edge ''b'' ''c'', sample_raw_edge ''c'' ''b''] \<rparr>"


section \<open>Properties of the job store\<close>

lemma map_of_alist_update:
  "map_of (AList.update k v al) k' = (if k' = k then Some v else map_of al k')"
  by (simp add: update_conv')

lemma map_of_dict_update:
  "map_of (dict_update d m) k = (case map_of (rev m) k of Some v \<Rightarrow> Some v | None \<Rightarrow> map_of d k)"
proof (induction d m rule: dict_update.induct)
  case (1 d)
  then show ?case by simp
next
  case (2 d k' v rest)
  then show ?case
    by (auto simp: map_of_alist_update map_add_def split: option.splits)
qed

lemma update_record_frame:
  "job_id (update_record now a r) = job_id r"
  "topic (update_record now a r) = topic r"
  "created_at (update_record now a r) = created_at r"
  "updated_at (update_record now a r) = now"
  "status (update_record now a r) = (case u_status a of None \<Rightarrow> status r | Some s \<Rightarrow> s)"
  "stage (update_record now a r) = (case u_stage a of None \<Rightarrow> stage r | Some s \<Rightarrow> s)"
  "error (update_record now a r) = (case u_error a of None \<Rightarrow> error r | Some e \<Rightarrow> Some e)"
  "result (update_record now a r) = (case u_result a of None \<Rightarrow> result r | Some x \<Rightarrow> Some x)"
  "metrics (update_record now a r) =
     (case u_metrics a of None \<Rightarrow> metrics r | Some m \<Rightarrow> dict_update (metrics r) m)"
  by (simp_all add: update_record_def Let_def split: option.splits)

text \<open>
  Claim C9, as amended. \<open>update\<close> on a stored job is a partial-field merge: every field
  whose argument is left unspecified keeps its value, and so do the job id, the topic and
  the creation time. A given \<open>metrics\<close> argument is merged into the stored mapping key by
  key at the top level only (\<open>dict.update\<close>): a key of the argument takes the argument's
  value whole, every other key keeps the stored value.
\<close>

theorem update_partial_merge:
  assumes "jobs jid = Some r"
  shows "\<exists>r'. update jobs now jid a = Inr (r', jobs(jid \<mapsto> r'))
     \<and> (u_status a = None \<longrightarrow> status r' = status r)
     \<and> (u_stage a = None \<longrightarrow> stage r' = stage r)
     \<and> (u_error a = None \<longrightarrow> error r' = error r)
     \<and> (u_result a = None \<longrightarrow> result r' = result r)
     \<and> (u_metrics a = None \<longrightarrow> metrics r' = metrics r)
     \<and> (\<forall>m. u_metrics a = Some m \<longrightarrow>
           metrics r' = dict_update (metrics r) m
           \<and> (\<forall>k. map_of (metrics r') k =
                 (case map_of (rev m) k of Some v \<Rightarrow> Some v | None \<Rightarrow> map_of (metrics r) k)))
     \<and> job_id r' = job_id r \<and> topic r' = topic r \<and> created_at r' = created_at r"
  using assms
  by (simp add: update_def Let_def update_record_frame map_of_dict_update)

theorem update_partial_merge_witness:
  "snd (create Map.empty 0 [106] [116]) [106] = Some (fst (create Map.empty 0 [106] [116]))
   \<and> (\<exists>r'. update (snd (create Map.empty 0 [106] [116])) 7 [106]
               (no_args\<lparr>u_metrics := Some [([112], JInt 1)]\<rparr>)
             = Inr (r', (snd (create Map.empty 0 [106] [116]))([106] \<mapsto> r'))
           \<and> status r' = ascii ''queued'' \<and> error r' = None
           \<and> metrics r' = [([112], JInt 1)])"
proof -
  have h: "snd (create Map.empty 0 [106] [116]) [106] = Some (fst (create Map.empty 0 [106] [116]))"
    by (simp add: create_def Let_def)
  from update_partial_merge [of "snd (create Map.empty 0 [106] [116])" "[106]"
      "fst (create Map.empty 0 [106] [116])" 7 "no_args\<lparr>u_metrics := Some [([112], JInt 1)]\<rparr>", OF h]
  show ?thesis
    using h by (auto simp: create_def no_args_def Let_def)
qed

text \<open>
  Claim C9 as stated fails: the stored metrics \<open>{"p": {"a": 1, "b": 2}}\<close> updated with
  \<open>{"p": {"a": 5}}\<close> become \<open>{"p": {"a": 5}}\<close>, where a deep merge keeps \<open>"b"\<close>.
\<close>

theorem update_metrics_not_deep_counterexample:
  "map_option metrics (get (updates (snd (create Map.empty 0 [106] [116]))
             [(1, [106], no_args\<lparr>u_metrics := Some [([112], JDict [([97], JInt 1), ([98], JInt 2)])]\<rparr>),
              (2, [106], no_args\<lparr>u_metrics := Some [([112], JDict [([97], JInt 5)])]\<rparr>)]) [106])
   = Some [([112], JDict [([97], JInt 5)])]
  \<and> deep_merge (deep_merge [] [([112], JDict [([97], JInt 1), ([98], JInt 2)])])
             [([112], JDict [([97], JInt 5)])]
    = [([112], JDict [([97], JInt 5), ([98], JInt 2)])]"
  by (simp add: create_def get_def update_def update_record_def no_args_def Let_def)

lemma updates_lookup:
  "updates jobs calls jid =
     map_option (fold (\<lambda>c r. if fst (snd c) = jid then update_record (fst c) (snd (snd c)) r else r) calls)
       (jobs jid)"
proof (induction calls arbitrary: jobs)
  case Nil
  then show ?case by (simp add: option.map_ident)
next
  case (Cons c calls)
  obtain now j a where c: "c = (now, j, a)" by (cases c) auto
  show ?case
  proof (cases "jobs j")
    case None
    then show ?thesis using c Cons.IH [of jobs]
      by (cases "j = jid") (auto simp: update_def)
  next
    case (Some rj)
    have step: "updates jobs (c # calls) = updates (jobs(j \<mapsto> update_record now a rj)) calls"
      using Some c by (simp add: update_def Let_def)
    show ?thesis
      unfolding step Cons.IH [of "jobs(j \<mapsto> update_record now a rj)"]
      using Some c by (cases "j = jid") auto
  qed
qed

lemma fold_error_set:
  "error r \<noteq> None \<Longrightarrow>
   error (fold (\<lambda>c r. if fst (snd c) = jid then update_record (fst c) (snd (snd c)) r else r) calls r) \<noteq> None"
  by (induction calls arbitrary: r) (auto simp: update_record_frame split: option.splits)

lemma fold_result_set:
  "result r \<noteq> None \<Longrightarrow>
   result (fold (\<lambda>c r. if fst (snd c) = jid then update_record (fst c) (snd (snd c)) r else r) calls r) \<noteq> None"
  by (induction calls arbitrary: r) (auto simp: update_record_frame split: option.splits)

lemma fold_error_same:
  "\<forall>c \<in> set calls. fst (snd c) = jid \<longrightarrow> u_error (snd (snd c)) = None \<Longrightarrow>
   error (fold (\<lambda>c r. if fst (snd c) = jid then update_record (fst c) (snd (snd c)) r else r) calls r) = error r"
  by (induction calls arbitrary: r) (auto simp: update_record_frame split: option.splits)

lemma fold_result_same:
  "\<forall>c \<in> set calls. fst (snd c) = jid \<longrightarrow> u_result (snd (snd c)) = None \<Longrightarrow>
   result (fold (\<lambda>c r. if fst (snd c) = jid then update_record (fst c) (snd (snd c)) r else r) calls r) = result r"
  by (induction calls arbitrary: r) (auto simp: update_record_frame split: option.splits)

lemma fold_status_same:
  "\<forall>c \<in> set calls. fst (snd c) = jid \<longrightarrow> u_status (snd (snd c)) = None \<Longrightarrow>
   status (fold (\<lambda>c r. if fst (snd c) = jid then update_record (fst c) (snd (snd c)) r else r) calls r) = status r"
  by (induction calls arbitrary: r) (auto simp: update_record_frame split: option.splits)

lemma fold_stage_same:
  "\<forall>c \<in> set calls. fst (snd c) = jid \<longrightarrow> u_stage (snd (snd c)) = None \<Longrightarrow>
   stage (fold (\<lambda>c r. if fst (snd c) = jid then update_record (fst c) (snd (snd c)) r else r) calls r) = stage r"
  by (induction calls arbitrary: r) (auto simp: update_record_frame split: option.splits)

text \<open>
  Claim C10. \<open>None\<close> means "leave unchanged" for every argument of \<open>update\<close>, so no
  sequence of \<open>update\<close> calls (to this or to other jobs, failing or not) resets a field:
  a job that is stored stays stored, an error or a result that is set stays set, and
  each of error, result, status and stage keeps its very value through all calls that
  leave its argument unspecified. Status and stage are strings, never absent.
\<close>

theorem updates_never_reset:
  assumes "jobs jid = Some r"
  shows "\<exists>r'. updates jobs calls jid = Some r'
     \<and> (error r \<noteq> None \<longrightarrow> error r' \<noteq> None)
     \<and> (result r \<noteq> None \<longrightarrow> result r' \<noteq> None)
     \<and> ((\<forall>c \<in> set calls. fst (snd c) = jid \<longrightarrow> u_error (snd (snd c)) = None) \<longrightarrow> error r' = error r)
     \<and> ((\<forall>c \<in> set calls. fst (snd c) = jid \<longrightarrow> u_result (snd (snd c)) = None) \<longrightarrow> result r' = result r)
     \<and> ((\<forall>c \<in> set calls. fst (snd c) = jid \<longrightarrow> u_status (snd (snd c)) = None) \<longrightarrow> status r' = status r)
     \<and> ((\<forall>c \<in> set calls. fst (snd c) = jid \<longrightarrow> u_stage (snd (snd c)) = None) \<longrightarrow> stage r' = stage r)"
  unfolding updates_lookup assms
  using fold_error_set [of r jid calls] fold_result_set [of r jid calls]
    fold_error_same [of calls jid r] fold_result_same [of calls jid r]
    fold_status_same [of calls jid r] fold_stage_same [of calls jid r]
  by simp

theorem updates_never_reset_witness:
  "\<exists>r'. updates (Map.empty([106] \<mapsto>
             \<lparr> job_id = [106], status = ascii ''failed'', stage = ascii ''failed'',
               created_at = 0, updated_at = 1, topic = [116],
               error = Some (ascii ''boom''), result = Some [], metrics = [] \<rparr>))
           [(2, [106], no_args\<lparr>u_metrics := Some [([112], JInt 1)]\<rparr>), (3, [107], no_args),
            (4, [106], no_args)] [106] = Some r'
         \<and> error r' = Some (ascii ''boom'') \<and> result r' = Some []
         \<and> status r' = ascii ''failed'' \<and> stage r' = ascii ''failed''"
  using updates_never_reset [of "Map.empty([106] \<mapsto>
             \<lparr> job_id = [106], status = ascii ''failed'', stage = ascii ''failed'',
               created_at = 0, updated_at = 1, topic = [116],
               error = Some (ascii ''boom''), result = Some [], metrics = [] \<rparr>)" "[106]" _
           "[(2, [106], no_args\<lparr>u_metrics := Some [([112], JInt 1)]\<rparr>), (3, [107], no_args),
             (4, [106], no_args)]"]
  by (auto simp: no_args_def)

section \<open>Properties of the synthesis completions\<close>

lemma ready_inv_initial: "ready_inv (initial_tts_state secs)"
  by (simp add: ready_inv_def initial_tts_state_def ready_indices_def)

lemma ready_inv_submit: "ready_inv s \<Longrightarrow> ready_inv (submit_tts_task fut meta s)"
  by (simp add: ready_inv_def submit_tts_task_def ready_indices_def)

lemma ready_inv_store:
  assumes "distinct (map fst (ready_chunks_by_index s))"
  shows "ready_inv (store_ready meta st s)"
  using assms
  by (simp add: ready_inv_def store_ready_def Let_def ordered_pairs_def ready_indices_def
      distinct_update comp_def)

lemma ready_inv_consume:
  assumes inv: "ready_inv s"
  shows "ready_inv (consume_one s ev)"
proof (cases "map_of (pending_tts s) (fst ev)")
  case None
  then show ?thesis using inv by (simp add: consume_one_def)
next
  case (Some meta)
  show ?thesis
  proof (cases "snd ev")
    case Raised
    with Some inv show ?thesis
      by (simp add: consume_one_def Let_def ready_inv_def ready_indices_def)
  next
    case (Returned st file_exists)
    show ?thesis
    proof (cases file_exists)
      case True
      have "distinct (map fst (ready_chunks_by_index
               (record_stats st (s\<lparr>pending_tts := AList.delete (fst ev) (pending_tts s)\<rparr>))))"
        using inv by (simp add: ready_inv_def record_stats_def)
      from ready_inv_store [OF this] Some Returned True show ?thesis
        by (simp add: consume_one_def Let_def)
    next
      case False
      with Some Returned inv show ?thesis
        by (simp add: consume_one_def Let_def ready_inv_def ready_indices_def record_stats_def)
    qed
  qed
qed

lemma ready_inv_run: "ready_inv s \<Longrightarrow> ready_inv (run_tts s evs)"
  by (induction s evs rule: run_tts.induct) (simp_all add: ready_inv_submit ready_inv_consume)

lemma strict_ready_indices:
  "distinct (map fst (ready_chunks_by_index s)) \<Longrightarrow> sorted_wrt (<) (ready_indices s)"
  by (simp add: ready_indices_def strict_sorted_iff)

text \<open>
  Claim C1. Whatever the order of submissions and completions, after every one of them
  (\<open>evs\<close> is any sequence, so also any prefix of a run) and hence at finalization, the
  ready lists hold exactly the chunks of the section indices that are ready, in strictly
  increasing order of section index: the \<open>i\<close>-th file name and path are those stored
  for the \<open>i\<close>-th smallest ready index, and \<open>ready_audio_chunks\<close> is that same list.
\<close>

theorem ready_chunks_strictly_increasing:
  "let s = run_tts (initial_tts_state secs) evs; d = ready_chunks_by_index s
   in sorted_wrt (<) (ready_indices s)
      \<and> set (ready_indices s) = fst ` set d
      \<and> ready_chunk_filenames s = map (\<lambda>k. fst (the (map_of d k))) (ready_indices s)
      \<and> ready_chunk_paths s = map (\<lambda>k. snd (the (map_of d k))) (ready_indices s)
      \<and> ready_audio_chunks s = ready_chunk_filenames s
      \<and> ready_chunk_count s = length (ready_indices s)"
proof -
  have "ready_inv (run_tts (initial_tts_state secs) evs)"
    by (rule ready_inv_run [OF ready_inv_initial])
  then show ?thesis
    by (simp add: Let_def ready_inv_def strict_ready_indices) (simp add: ready_indices_def)
qed

theorem ready_chunks_strictly_increasing_witness:
  "let s = run_tts (initial_tts_state [])
      [Submitted 0 \<lparr> m_section_index = 0, m_section_title = [], section_filename = [105],
                     section_path = [47, 105], ready_stage_name = [] \<rparr>,
       Submitted 1 \<lparr> m_section_index = 1, m_section_title = [], section_filename = [97],
                     section_path = [47, 97], ready_stage_name = [] \<rparr>,
       Submitted 2 \<lparr> m_section_index = 2, m_section_title = [], section_filename = [98],
                     section_path = [47, 98], ready_stage_name = [] \<rparr>,
       Completed 2 (Returned \<lparr> cache_hits = 1, cache_misses = 2, line_timings_ready = True,
                               timings_deferred = False, line_timings = None,
                               stat_audio_ms = 1000 \<rparr> True),
       Completed 0 Raised,
       Completed 1 (Returned \<lparr> cache_hits = 1, cache_misses = 2, line_timings_ready = True,
                               timings_deferred = False, line_timings = None,
                               stat_audio_ms = 1000 \<rparr> True)]
   in ready_indices s = [1, 2] \<and> sorted_wrt (<) (ready_indices s)
      \<and> ready_chunk_filenames s = [[97], [98]] \<and> ready_audio_chunks s = [[97], [98]]"
proof -
  let ?evs = "[Submitted 0 \<lparr> m_section_index = 0, m_section_title = [], section_filename = [105],
                     section_path = [47, 105], ready_stage_name = [] \<rparr>,
       Submitted 1 \<lparr> m_section_index = 1, m_section_title = [], section_filename = [97],
                     section_path = [47, 97], ready_stage_name = [] \<rparr>,
       Submitted 2 \<lparr> m_section_index = 2, m_section_title = [], section_filename = [98],
                     section_path = [47, 98], ready_stage_name = [] \<rparr>,
       Completed 2 (Returned \<lparr> cache_hits = 1, cache_misses = 2, line_timings_ready = True,
                               timings_deferred = False, line_timings = None,
                               stat_audio_ms = 1000 \<rparr> True),
       Completed 0 Raised,
       Completed 1 (Returned \<lparr> cache_hits = 1, cache_misses = 2, line_timings_ready = True,
                               timings_deferred = False, line_timings = None,
                               stat_audio_ms = 1000 \<rparr> True)]"
  have st: "run_tts (initial_tts_state []) ?evs =
     \<lparr>pending_tts = [], synthesized_sections = 2, tts_cache_hits = 2,
      tts_cache_misses = 4, intro_failed = True, timings_ready = True,
      ready_chunks_by_index = [(2, [98], [47, 98]), (1, [97], [47, 97])],
      ready_chunk_filenames = [[97], [98]],
      ready_chunk_paths = [[47, 97], [47, 98]], ready_chunk_count = 2,
      ready_audio_chunks = [[97], [98]], transcript_sections = []\<rparr>"
    by code_simp
  from ready_chunks_strictly_increasing [of "[]" ?evs]
  show ?thesis
    unfolding st Let_def by (simp add: ready_indices_def)
qed

lemma consume_failed:
  assumes "map_of (pending_tts s) fut = Some meta" and "failed out"
  shows "map_of (pending_tts (consume_one s (fut, out))) fut = None"
    and "ready_chunks_by_index (consume_one s (fut, out)) = ready_chunks_by_index s"
    and "ready_chunk_filenames (consume_one s (fut, out)) = ready_chunk_filenames s"
    and "ready_chunk_paths (consume_one s (fut, out)) = ready_chunk_paths s"
    and "synthesized_sections (consume_one s (fut, out)) = synthesized_sections s"
    and "transcript_sections (consume_one s (fut, out)) = transcript_sections s"
    and "intro_failed (consume_one s (fut, out)) \<longleftrightarrow> intro_failed s \<or> m_section_index meta = 0"
  using assms
  by (cases out; simp add: consume_one_def Let_def record_stats_def delete_conv')+

lemma intro_failed_consume: "intro_failed s \<Longrightarrow> intro_failed (consume_one s ev)"
  by (cases "snd ev")
     (auto simp: consume_one_def Let_def record_stats_def store_ready_def split: option.splits)

lemma intro_failed_run: "intro_failed s \<Longrightarrow> intro_failed (run_tts s evs)"
  by (induction s evs rule: run_tts.induct)
     (simp_all add: intro_failed_consume submit_tts_task_def)

lemma intro_failed_origin:
  assumes "intro_failed (consume_one s (fut, out))" and "\<not> intro_failed s"
  shows "\<exists>meta. map_of (pending_tts s) fut = Some meta \<and> m_section_index meta = 0 \<and> failed out"
  using assms
  by (cases out)
     (auto simp: consume_one_def Let_def record_stats_def store_ready_def
           split: option.splits if_splits)

lemma ordered_pairs_update_nonempty: "ordered_pairs (AList.update k v d) \<noteq> []"
proof -
  have "AList.update k v d \<noteq> []" by (cases d) auto
  then have "length (ordered_pairs (AList.update k v d)) \<noteq> 0"
    by (simp add: ordered_pairs_def)
  then show ?thesis by fastforce
qed

lemma store_ready_paths: "ready_chunk_paths (store_ready meta st s) \<noteq> []"
  by (simp add: store_ready_def Let_def ordered_pairs_update_nonempty)

lemma ready_paths_consume:
  "ready_chunk_paths s \<noteq> [] \<Longrightarrow> ready_chunk_paths (consume_one s ev) \<noteq> []"
  by (cases "snd ev")
     (auto simp: consume_one_def Let_def record_stats_def store_ready_paths
           split: option.splits)

lemma ready_paths_run:
  "ready_chunk_paths s \<noteq> [] \<Longrightarrow> ready_chunk_paths (run_tts s evs) \<noteq> []"
  by (induction s evs rule: run_tts.induct)
     (simp_all add: ready_paths_consume submit_tts_task_def)

lemma finish_after_failure:
  assumes "map_of (pending_tts s) fut = Some meta" and "failed out" and "m_section_index meta \<noteq> 0"
  shows "finish_job defer_finalize combined (consume_one s (fut, out))
         = finish_job defer_finalize combined s"
  using assms
  by (cases out; simp add: consume_one_def Let_def record_stats_def finish_job_def)

lemma finish_intro_failed:
  "finish_job defer_finalize combined s = Inr fm \<Longrightarrow> fm_intro_failed fm = intro_failed s"
  by (auto simp: finish_job_def split: if_splits)

text \<open>
  Claim C2. Let a pending synthesis task fail (its future raises, or its output file is
  absent at completion). Then the task is dropped from the pending registry and no ready
  chunk, ready list or synthesized count changes; the flag \<open>intro_failed\<close> afterwards is
  the old flag or the fact that the task was the intro (section index 0), and a flag that
  is set stays set through every later submission and completion; the final metrics
  carry the flag; the failure of a task other than the intro leaves the outcome of the
  job exactly what it was, and with a ready chunk at hand the job ends without an error
  in the default deferred mode whatever fails afterwards. No completion other than a
  failure of the intro task ever turns the flag on.
\<close>

theorem synthesis_failure_is_dropped:
  assumes "map_of (pending_tts s) fut = Some meta" and "failed out"
  shows "map_of (pending_tts (consume_one s (fut, out))) fut = None
     \<and> ready_chunks_by_index (consume_one s (fut, out)) = ready_chunks_by_index s
     \<and> ready_chunk_filenames (consume_one s (fut, out)) = ready_chunk_filenames s
     \<and> ready_chunk_paths (consume_one s (fut, out)) = ready_chunk_paths s
     \<and> synthesized_sections (consume_one s (fut, out)) = synthesized_sections s
     \<and> (intro_failed (consume_one s (fut, out)) \<longleftrightarrow> intro_failed s \<or> m_section_index meta = 0)
     \<and> (intro_failed (consume_one s (fut, out)) \<longrightarrow>
          intro_failed (run_tts (consume_one s (fut, out)) evs))
     \<and> (\<forall>fm. finish_job defer_finalize combined (run_tts (consume_one s (fut, out)) evs) = Inr fm \<longrightarrow>
          fm_intro_failed fm = intro_failed (run_tts (consume_one s (fut, out)) evs))
     \<and> (m_section_index meta \<noteq> 0 \<longrightarrow>
          finish_job defer_finalize combined (consume_one s (fut, out))
          = finish_job defer_finalize combined s)
     \<and> (ready_chunk_paths s \<noteq> [] \<longrightarrow>
          (\<exists>fm. finish_job True combined (run_tts (consume_one s (fut, out)) evs) = Inr fm))
     \<and> (\<forall>fut' out'. intro_failed (consume_one s (fut', out')) \<and> \<not> intro_failed s \<longrightarrow>
          (\<exists>m. map_of (pending_tts s) fut' = Some m \<and> m_section_index m = 0 \<and> failed out'))"
proof -
  note c = consume_failed [OF assms]
  have sticky: "intro_failed (consume_one s (fut, out)) \<longrightarrow>
          intro_failed (run_tts (consume_one s (fut, out)) evs)"
    using intro_failed_run by blast
  have surfaced: "\<forall>fm. finish_job defer_finalize combined (run_tts (consume_one s (fut, out)) evs) = Inr fm \<longrightarrow>
          fm_intro_failed fm = intro_failed (run_tts (consume_one s (fut, out)) evs)"
    using finish_intro_failed by blast
  have not_fatal: "m_section_index meta \<noteq> 0 \<longrightarrow>
          finish_job defer_finalize combined (consume_one s (fut, out))
          = finish_job defer_finalize combined s"
    using finish_after_failure [OF assms] by blast
  have continues: "ready_chunk_paths s \<noteq> [] \<longrightarrow>
          (\<exists>fm. finish_job True combined (run_tts (consume_one s (fut, out)) evs) = Inr fm)"
  proof
    assume "ready_chunk_paths s \<noteq> []"
    then have "ready_chunk_paths (consume_one s (fut, out)) \<noteq> []" by (simp add: c(4))
    from ready_paths_run [OF this, of evs]
    show "\<exists>fm. finish_job True combined (run_tts (consume_one s (fut, out)) evs) = Inr fm"
      by (simp add: finish_job_def)
  qed
  have origin: "\<forall>fut' out'. intro_failed (consume_one s (fut', out')) \<and> \<not> intro_failed s \<longrightarrow>
          (\<exists>m. map_of (pending_tts s) fut' = Some m \<and> m_section_index m = 0 \<and> failed out')"
    using intro_failed_origin by blast
  show ?thesis
    using c(1,2,3,4,5,7) sticky surfaced not_fatal continues origin
    by (intro conjI) assumption+
qed

theorem synthesis_failure_is_dropped_witness:
  "(let s = run_tts (initial_tts_state [])
              [Submitted 0 (sample_meta 0 (ascii ''intro'')), Submitted 1 (sample_meta 1 (ascii ''sec01'')),
               Completed 1 (Returned sample_stats True)];
        s' = consume_one s (0, Raised);
        evs = [Submitted 2 (sample_meta 2 (ascii ''sec02'')), Completed 2 (Returned sample_stats True)]
    in map_of (pending_tts s) 0 = Some (sample_meta 0 (ascii ''intro'')) \<and> failed Raised
       \<and> \<not> intro_failed s \<and> intro_failed s' \<and> intro_failed (run_tts s' evs)
       \<and> map_of (pending_tts s') 0 = None
       \<and> ready_chunk_paths s \<noteq> [] \<and> ready_chunk_paths s' = ready_chunk_paths s
       \<and> (\<exists>fm. finish_job True False (run_tts s' evs) = Inr fm \<and> fm_intro_failed fm))
   \<and> (let s = run_tts (initial_tts_state [])
              [Submitted 0 (sample_meta 0 (ascii ''intro'')), Submitted 1 (sample_meta 1 (ascii ''sec01'')),
               Completed 0 (Returned sample_stats True)];
           s' = consume_one s (1, Returned sample_stats False)
       in map_of (pending_tts s) 1 = Some (sample_meta 1 (ascii ''sec01''))
          \<and> failed (Returned sample_stats False)
          \<and> m_section_index (sample_meta 1 (ascii ''sec01'')) \<noteq> 0
          \<and> \<not> intro_failed s'
          \<and> finish_job True False s' = finish_job True False s
          \<and> (\<exists>fm. finish_job True False s = Inr fm))"
proof -
  let ?sa = "run_tts (initial_tts_state [])
              [Submitted 0 (sample_meta 0 (ascii ''intro'')), Submitted 1 (sample_meta 1 (ascii ''sec01'')),
               Completed 1 (Returned sample_stats True)]"
  let ?sb = "run_tts (initial_tts_state [])
              [Submitted 0 (sample_meta 0 (ascii ''intro'')), Submitted 1 (sample_meta 1 (ascii ''sec01'')),
               Completed 0 (Returned sample_stats True)]"
  let ?evs = "[Submitted 2 (sample_meta 2 (ascii ''sec02'')), Completed 2 (Returned sample_stats True)]"
  have a: "map_of (pending_tts ?sa) 0 = Some (sample_meta 0 (ascii ''intro''))"
    "failed Raised" "\<not> intro_failed ?sa" "ready_chunk_paths ?sa \<noteq> []"
    "m_section_index (sample_meta 0 (ascii ''intro'')) = 0"
    by code_simp+
  have b: "map_of (pending_tts ?sb) 1 = Some (sample_meta 1 (ascii ''sec01''))"
    "failed (Returned sample_stats False)" "m_section_index (sample_meta 1 (ascii ''sec01'')) \<noteq> 0"
    "\<not> intro_failed ?sb" "ready_chunk_paths ?sb \<noteq> []"
    by code_simp+
  let ?sa' = "consume_one ?sa (0, Raised)"
  let ?sb' = "consume_one ?sb (1, Returned sample_stats False)"
  note ta = synthesis_failure_is_dropped [OF a(1,2), of ?evs True False]
  note tb = synthesis_failure_is_dropped [OF b(1,2), of "[]" True False]
  have a1: "map_of (pending_tts ?sa') 0 = None" using ta by blast
  have a2: "ready_chunk_paths ?sa' = ready_chunk_paths ?sa" using ta by blast
  have a3: "intro_failed ?sa'" using ta a(5) by blast
  have a4: "intro_failed (run_tts ?sa' ?evs)" using ta a3 by blast
  have a5: "\<exists>fm. finish_job True False (run_tts ?sa' ?evs) = Inr fm \<and> fm_intro_failed fm"
    using ta a(4) a4 by blast
  have b1: "\<not> intro_failed ?sb'" using tb b(3,4) by blast
  have b2: "finish_job True False ?sb' = finish_job True False ?sb" using tb b(3) by blast
  have "\<exists>fm. finish_job True False (run_tts ?sb' []) = Inr fm" using tb b(5) by blast
  then have b3: "\<exists>fm. finish_job True False ?sb = Inr fm"
    unfolding run_tts.simps(1) b2 .
  show ?thesis
    unfolding Let_def
    using a(1,2,3,4) a1 a2 a3 a4 a5 b(1,2,3) b1 b2 b3
    by (intro conjI) assumption+
qed

section \<open>Properties of the global timing reconstruction\<close>

lemma stamp_lines_max:
  "snd (stamp_lines c m ls) = fold (\<lambda>l m. max m (int_or_0 (end_ms l))) ls m"
  by (induction ls arbitrary: m) (simp_all add: Let_def max_def case_prod_beta not_less)

lemma stamp_lines_stamps:
  "concat (map line_stamps (fst (stamp_lines c m ls))) = map (\<lambda>x. c + x) (local_offsets ls)"
  by (induction ls arbitrary: m)
     (simp_all add: Let_def line_stamps_def local_offsets_def int_or_0_def case_prod_beta)

lemma stamp_lines_pairs:
  "list_all (\<lambda>l. int_or_0 (global_start_ms l) \<le> int_or_0 (global_end_ms l)) (fst (stamp_lines c m ls))"
  by (induction ls arbitrary: m) (simp_all add: Let_def int_or_0_def case_prod_beta)

lemma fold_max_ge: "m \<le> fold (\<lambda>l m. max m (f l)) ls (m :: int)"
proof (induction ls arbitrary: m)
  case Nil
  then show ?case by simp
next
  case (Cons l ls)
  have "m \<le> max m (f l)" by simp
  also have "\<dots> \<le> fold (\<lambda>l m. max m (f l)) ls (max m (f l))" by (rule Cons.IH)
  finally show ?case by simp
qed

lemma max_line_end_nonneg: "0 \<le> max_line_end ls"
  unfolding max_line_end_def by (rule fold_max_ge)

lemma section_span_nonneg: "0 \<le> section_span sec"
  using max_line_end_nonneg [of "lines sec"] by (simp add: section_span_def)

lemma stamp_sections_Cons:
  "stamp_sections c (sec # secs) =
     (sec\<lparr>lines := fst (stamp_lines c 0 (lines sec)),
          sec_global_start_ms := Some c,
          sec_global_end_ms := Some (c + section_span sec)\<rparr>
        # fst (stamp_sections (c + section_span sec) secs),
      snd (stamp_sections (c + section_span sec) secs))"
proof -
  have m: "snd (stamp_lines c 0 (lines sec)) = max_line_end (lines sec)"
    by (simp add: stamp_lines_max max_line_end_def)
  have "max (if int_or_0 (audio_ms sec) > 0 then int_or_0 (audio_ms sec) else max_line_end (lines sec)) 0
        = section_span sec"
    using section_span_nonneg [of sec] by (simp add: section_span_def)
  then show ?thesis
    using m by (simp add: Let_def case_prod_beta)
qed

lemma stamp_sections_length: "length (fst (stamp_sections c secs)) = length secs"
  by (induction secs arbitrary: c) (simp_all add: stamp_sections_Cons del: stamp_sections.simps(2))

lemma stamp_sections_cursor:
  "snd (stamp_sections c secs) = c + sum_list (map section_span secs)"
  by (induction secs arbitrary: c) (simp_all add: stamp_sections_Cons del: stamp_sections.simps(2))

lemma stamp_sections_nth:
  "i < length secs \<Longrightarrow>
   section_index (fst (stamp_sections c secs) ! i) = section_index (secs ! i)
   \<and> sec_global_start_ms (fst (stamp_sections c secs) ! i)
       = Some (c + sum_list (map section_span (take i secs)))
   \<and> sec_global_end_ms (fst (stamp_sections c secs) ! i)
       = Some (c + sum_list (map section_span (take i secs)) + section_span (secs ! i))"
proof (induction secs arbitrary: c i)
  case Nil
  then show ?case by simp
next
  case (Cons sec secs)
  show ?case
  proof (cases i)
    case 0
    then show ?thesis by (simp add: stamp_sections_Cons del: stamp_sections.simps(2))
  next
    case (Suc j)
    with Cons.prems have "j < length secs" by simp
    from Cons.IH [OF this, of "c + section_span sec"] Suc show ?thesis
      by (simp add: stamp_sections_Cons add.assoc del: stamp_sections.simps(2))
  qed
qed

text \<open>
  Claim C4, as amended. The sections are walked in ascending order of section index
  with a cursor that starts at 0. The global span of each section is
  \<open>cursor .. cursor + span\<close>, where the span is the recorded \<open>audio_ms\<close> when that is
  positive and otherwise the largest local line end (at least 0); the cursor advances by
  exactly that span, so that each section starts where the one before it ends.
\<close>

theorem section_spans_follow_cursor:
  "let ord = ordered_sections secs; out = global_timing secs
   in sorted (map section_index ord) \<and> mset ord = mset secs \<and> length out = length ord
      \<and> (\<forall>i < length ord.
            section_index (out ! i) = section_index (ord ! i)
            \<and> sec_global_start_ms (out ! i) = Some (sum_list (map section_span (take i ord)))
            \<and> sec_global_end_ms (out ! i)
                = Some (sum_list (map section_span (take i ord)) + section_span (ord ! i))
            \<and> 0 \<le> section_span (ord ! i))"
  using stamp_sections_nth [of _ "ordered_sections secs" 0]
  by (simp add: Let_def global_timing_def ordered_sections_def stamp_sections_length
      section_span_nonneg mset_sort)

theorem section_spans_follow_cursor_witness:
  "let secs = [sample_section 1 [sample_line (Some 0) (Some 400)] (Some 1000),
               sample_section 0 [sample_line (Some 0) (Some 700)] None];
       out = global_timing secs
   in map section_index out = [0, 1]
      \<and> map sec_global_start_ms out = [Some 0, Some 700]
      \<and> map sec_global_end_ms out = [Some 700, Some 1700]"
proof -
  let ?secs = "[sample_section 1 [sample_line (Some 0) (Some 400)] (Some 1000),
               sample_section 0 [sample_line (Some 0) (Some 700)] None]"
  have ev: "map section_index (global_timing ?secs) = [0, 1]"
    "map sec_global_start_ms (global_timing ?secs) = [Some 0, Some 700]"
    "map sec_global_end_ms (global_timing ?secs) = [Some 700, Some 1700]"
    by code_simp+
  from section_spans_follow_cursor [of ?secs] ev show ?thesis
    unfolding Let_def by blast
qed

text \<open>
  Claim C4 as stated fails: for a section with a recorded duration of 100 ms whose only
  line ends at 500 ms the span is 100, not the larger of the two.
\<close>

theorem section_span_not_max_counterexample:
  "map sec_global_end_ms (global_timing [sample_section 0 [sample_line (Some 0) (Some 500)] (Some 100)])
     = [Some 100]
   \<and> spec_section_span (sample_section 0 [sample_line (Some 0) (Some 500)] (Some 100)) = 500"
  by code_simp

lemma sorted_shift: "sorted xs \<Longrightarrow> sorted (map (\<lambda>x. (c :: int) + x) xs)"
  by (induction xs) auto

lemma stamps_sorted_bounded:
  assumes "list_all well_timed secs"
  shows "sorted (transcript_stamps (fst (stamp_sections c secs)))
         \<and> (\<forall>x \<in> set (transcript_stamps (fst (stamp_sections c secs))). c \<le> x)"
  using assms
proof (induction secs arbitrary: c)
  case Nil
  then show ?case by (simp add: transcript_stamps_def)
next
  case (Cons sec secs)
  let ?c' = "c + section_span sec"
  let ?here = "map (\<lambda>x. c + x) (local_offsets (lines sec))"
  let ?rest = "transcript_stamps (fst (stamp_sections ?c' secs))"
  from Cons.prems have wt: "well_timed sec" and rest: "list_all well_timed secs" by simp_all
  have split: "transcript_stamps (fst (stamp_sections c (sec # secs))) = ?here @ ?rest"
    by (simp add: stamp_sections_Cons transcript_stamps_def stamp_lines_stamps
        del: stamp_sections.simps(2))
  from wt have s1: "sorted ?here"
    by (simp add: well_timed_def sorted_shift)
  from wt have b1: "\<forall>x \<in> set ?here. c \<le> x \<and> x \<le> ?c'"
    by (auto simp: well_timed_def list_all_iff)
  from Cons.IH [OF rest, of ?c'] have s2: "sorted ?rest" and b2: "\<forall>x \<in> set ?rest. ?c' \<le> x"
    by simp_all
  have "sorted (?here @ ?rest)"
    unfolding sorted_append using s1 s2 b1 b2 by fastforce
  moreover have "\<forall>x \<in> set (?here @ ?rest). c \<le> x"
    using b1 b2 section_span_nonneg [of sec] by fastforce
  ultimately show ?case unfolding split by simp
qed

lemma line_pairs_all:
  "list_all (\<lambda>s. list_all (\<lambda>l. int_or_0 (global_start_ms l) \<le> int_or_0 (global_end_ms l)) (lines s))
     (fst (stamp_sections c secs))"
  by (induction secs arbitrary: c)
     (simp_all add: stamp_sections_Cons stamp_lines_pairs del: stamp_sections.simps(2))

text \<open>
  Claim C3, as amended. For any timing data, every line's global start is at most its
  global end. The global line timestamps are non-decreasing across the whole transcript
  (start and end of each line, line after line, section after section in index order)
  whenever in every section the local offsets, with an absent \<open>start_ms\<close> or \<open>end_ms\<close>
  read as 0, are non-negative, non-decreasing in line order and at most the section's
  span; this includes every section none of whose lines has timing data.
\<close>

theorem global_timestamps_monotone:
  "list_all (\<lambda>s. list_all (\<lambda>l. int_or_0 (global_start_ms l) \<le> int_or_0 (global_end_ms l)) (lines s))
     (global_timing secs)
   \<and> (list_all well_timed secs \<longrightarrow> sorted (transcript_stamps (global_timing secs)))"
proof -
  have "list_all well_timed secs \<Longrightarrow> list_all well_timed (ordered_sections secs)"
    by (simp add: list_all_iff ordered_sections_def)
  then show ?thesis
    using stamps_sorted_bounded [of "ordered_sections secs" 0] line_pairs_all
    by (auto simp: global_timing_def)
qed

theorem global_timestamps_monotone_witness:
  "let secs = [sample_section 1 [sample_line (Some 0) (Some 400), sample_line (Some 400) (Some 900)] (Some 1000),
               sample_section 0 [sample_line None None, sample_line None None] None,
               sample_section 2 [sample_line (Some 0) (Some 300)] None]
   in list_all well_timed secs
      \<and> transcript_stamps (global_timing secs) = [0, 0, 0, 0, 0, 400, 400, 900, 1000, 1300]
      \<and> sorted (transcript_stamps (global_timing secs))"
proof -
  let ?secs = "[sample_section 1 [sample_line (Some 0) (Some 400), sample_line (Some 400) (Some 900)] (Some 1000),
               sample_section 0 [sample_line None None, sample_line None None] None,
               sample_section 2 [sample_line (Some 0) (Some 300)] None]"
  have h: "list_all well_timed ?secs" by code_simp
  have ev: "transcript_stamps (global_timing ?secs) = [0, 0, 0, 0, 0, 400, 400, 900, 1000, 1300]"
    by code_simp
  from global_timestamps_monotone [of ?secs] h ev show ?thesis
    unfolding Let_def by blast
qed

text \<open>
  Claim C3 as stated fails: a section of three lines for which the provider returned
  timings for the first two only (and 1000 ms of audio) gets the stamps 0, 500, 500, 900
  and then 0, 0 for the third line.
\<close>

theorem global_timestamps_decrease_counterexample:
  "transcript_stamps (global_timing
      [sample_section 0 [sample_line (Some 0) (Some 500), sample_line (Some 500) (Some 900),
                         sample_line None None] (Some 1000)])
     = [0, 500, 500, 900, 0, 0]
   \<and> \<not> sorted (transcript_stamps (global_timing
      [sample_section 0 [sample_line (Some 0) (Some 500), sample_line (Some 500) (Some 900),
                         sample_line None None] (Some 1000)]))"
  by code_simp

section \<open>Properties of the novelty score and of the novelty guard\<close>

lemma finite_char_ngrams: "finite (char_ngrams t n)"
  by (simp add: char_ngrams_def Let_def)

lemma char_ngrams_nonempty:
  "normalize_point_text t \<noteq> [] \<Longrightarrow> char_ngrams t n \<noteq> {}"
  by (auto simp: char_ngrams_def Let_def)

lemma best_similarity_le_1:
  "finite base \<Longrightarrow> best \<le> 1 \<Longrightarrow> best_similarity base best points \<le> 1"
proof (induction points arbitrary: best)
  case Nil
  then show ?case by simp
next
  case (Cons p points)
  let ?other = "char_ngrams p 3"
  let ?sim = "(of_nat (card (base \<inter> ?other)) :: rat) / of_nat (card (base \<union> ?other))"
  have "card (base \<inter> ?other) \<le> card (base \<union> ?other)"
    using Cons.prems(1) finite_char_ngrams [of p 3] by (intro card_mono) auto
  then have "?sim \<le> 1"
    by (cases "card (base \<union> ?other) = 0") (simp_all add: divide_le_eq_1)
  with Cons show ?case by (simp add: Let_def)
qed

lemma best_similarity_ge: "best \<le> best_similarity base best points"
proof (induction points arbitrary: best)
  case Nil
  then show ?case by simp
next
  case (Cons p points)
  show ?case
    using Cons.IH [of best]
      Cons.IH [of "of_nat (card (base \<inter> char_ngrams p 3)) / of_nat (card (base \<union> char_ngrams p 3))"]
    by (auto simp: Let_def)
qed

lemma best_similarity_identical:
  assumes "finite base" and "base \<noteq> {}" and "best \<le> 1"
    and "\<exists>p \<in> set points. char_ngrams p 3 = base"
  shows "best_similarity base best points = 1"
  using assms(3,4)
proof (induction points arbitrary: best)
  case Nil
  then show ?case by simp
next
  case (Cons p points)
  let ?other = "char_ngrams p 3"
  let ?sim = "(of_nat (card (base \<inter> ?other)) :: rat) / of_nat (card (base \<union> ?other))"
  show ?case
  proof (cases "?other = base")
    case True
    have cb: "card base \<noteq> 0" using assms(1,2) by simp
    have b1: "best_similarity base 1 points = 1"
      using best_similarity_le_1 [OF assms(1), of 1 points] best_similarity_ge [of 1 base points]
      by simp
    show ?thesis
    proof (cases "best = 1")
      case True
      with \<open>?other = base\<close> assms(2) cb b1 show ?thesis by (simp add: Let_def)
    next
      case False
      with Cons.prems(1) have "best < 1" by simp
      with \<open>?other = base\<close> assms(2) cb b1 show ?thesis by (simp add: Let_def)
    qed
  next
    case False
    with Cons.prems(2) have ex: "\<exists>p \<in> set points. char_ngrams p 3 = base" by auto
    have "card (base \<inter> ?other) \<le> card (base \<union> ?other)"
      using assms(1) finite_char_ngrams [of p 3] by (intro card_mono) auto
    then have "?sim \<le> 1"
      by (cases "card (base \<union> ?other) = 0") (simp_all add: divide_le_eq_1)
    with Cons.IH [OF _ ex] Cons.prems(1) show ?thesis
      by (simp add: Let_def)
  qed
qed

lemma round4_0: "round4 0 = 0"
  by (simp add: round4_def round_half_even_def)

text \<open>
  Claim C7, as amended. With an empty list of covered points
  \<open>compute_section_novelty\<close> returns exactly 1 for every section whose text is not
  empty, and 0 for a section with empty text (whatever the covered points). For a section
  whose text is identical to some covered point and is not blank, it returns exactly 0.
\<close>

theorem novelty_extremes:
  "(script_text script \<noteq> [] \<longrightarrow> compute_section_novelty script [] = 1)
   \<and> (script_text script = [] \<longrightarrow> compute_section_novelty script covered_points = 0)
   \<and> (script_text script \<in> set covered_points \<and> normalize_point_text (script_text script) \<noteq> [] \<longrightarrow>
        compute_section_novelty script covered_points = 0)"
proof (intro conjI impI)
  assume a: "script_text script \<in> set covered_points \<and> normalize_point_text (script_text script) \<noteq> []"
  let ?t = "script_text script"
  from a have ne: "?t \<noteq> []" by (auto simp: normalize_point_text_def strip_def)
  from a have cp: "covered_points \<noteq> []" by auto
  from a have base: "char_ngrams ?t 3 \<noteq> {}" by (simp add: char_ngrams_nonempty)
  from a have "\<exists>p \<in> set covered_points. char_ngrams p 3 = char_ngrams ?t 3" by auto
  from best_similarity_identical [OF finite_char_ngrams base _ this, of 0]
  have "max_similarity_to_points ?t covered_points = 1"
    using base by (simp add: max_similarity_to_points_def Let_def)
  then show "compute_section_novelty script covered_points = 0"
    using ne cp by (simp add: compute_section_novelty_def Let_def round4_0)
qed (simp_all add: compute_section_novelty_def Let_def)

theorem novelty_extremes_witness:
  "script_text [sample_text_line (ascii ''abcdefgh'')] \<noteq> []
   \<and> compute_section_novelty [sample_text_line (ascii ''abcdefgh'')] [] = 1
   \<and> script_text [] = []
   \<and> compute_section_novelty [] [ascii ''abcdefgh''] = 0
   \<and> script_text [sample_text_line (ascii ''abcdefgh'')] \<in> set [ascii ''xyz'', ascii ''abcdefgh'']
   \<and> normalize_point_text (script_text [sample_text_line (ascii ''abcdefgh'')]) \<noteq> []
   \<and> compute_section_novelty [sample_text_line (ascii ''abcdefgh'')] [ascii ''xyz'', ascii ''abcdefgh''] = 0"
proof -
  have h: "script_text [sample_text_line (ascii ''abcdefgh'')] \<noteq> []"
    "script_text [] = []"
    "script_text [sample_text_line (ascii ''abcdefgh'')] \<in> set [ascii ''xyz'', ascii ''abcdefgh'']"
    "normalize_point_text (script_text [sample_text_line (ascii ''abcdefgh'')]) \<noteq> []"
    by code_simp+
  from novelty_extremes [of "[sample_text_line (ascii ''abcdefgh'')]" "[ascii ''xyz'', ascii ''abcdefgh'']"]
    novelty_extremes [of "[]" "[ascii ''abcdefgh'']"] h
  show ?thesis by blast
qed

text \<open>
  Claim C7 as stated fails: for a section without text and no covered points the score
  is 0, not 1.
\<close>

theorem novelty_empty_text_counterexample:
  "compute_section_novelty [sample_text_line []] [] = 0 \<and> compute_section_novelty [] [] = 0"
  by code_simp

lemma rewrite_step_facts:
  "novelty g = nov (section_script g) \<Longrightarrow>
     novelty (rewrite_step nov r g) = nov (section_script (rewrite_step nov r g))"
  "dedupe_rewrite_count g \<le> dedupe_rewrite_count (rewrite_step nov r g)"
  "dedupe_rewrite_count (rewrite_step nov r g) \<le> dedupe_rewrite_count g + 1"
  "section_script (rewrite_step nov r g) = section_script g \<or> section_script (rewrite_step nov r g) = r"
  by (simp_all add: rewrite_step_def)

text \<open>
  Claim C8, as amended. The guard always returns (it has no failing branch). A section
  whose novelty is at least the threshold is kept as generated. Otherwise the rewrite
  operation is called at most twice, each time on the current script; an answer that is
  not empty and differs from the current script replaces it and the novelty is recomputed,
  and the loop stops as soon as the novelty reaches the threshold. The pipeline proceeds
  with the script that is current then, that is with the last answer that replaced the
  script (or with the generated script if none did), whether or not the threshold was met;
  the recorded novelty is the novelty of that script and at most two rewrites are counted.
\<close>

theorem novelty_guard_bounded:
  "let g = novelty_guard nov thr rewrite n script;
       r0 = rewrite 0 script;
       s1 = (if r0 \<noteq> [] \<and> r0 \<noteq> script then r0 else script);
       r1 = rewrite 1 s1;
       s2 = (if r1 \<noteq> [] \<and> r1 \<noteq> s1 then r1 else s1)
   in novelty g = nov (section_script g)
      \<and> n \<le> dedupe_rewrite_count g \<and> dedupe_rewrite_count g \<le> n + 2
      \<and> (nov script \<ge> thr \<longrightarrow> section_script g = script \<and> dedupe_rewrite_count g = n)
      \<and> (nov script < thr \<and> nov s1 \<ge> thr \<longrightarrow> section_script g = s1)
      \<and> (nov script < thr \<and> nov s1 < thr \<longrightarrow> section_script g = s2)"
  by (auto simp: novelty_guard_def rewrite_step_def Let_def numeral_2_eq_2)

theorem novelty_guard_bounded_witness:
  "sample_nov [sample_text_line (ascii ''abcdefgh'')] < 32 / 100
   \<and> sample_nov (sample_rewrite 0 [sample_text_line (ascii ''abcdefgh'')]) < 32 / 100
   \<and> section_script (novelty_guard sample_nov (32 / 100) sample_rewrite 0
                        [sample_text_line (ascii ''abcdefgh'')])
       = sample_rewrite 1 (sample_rewrite 0 [sample_text_line (ascii ''abcdefgh'')])
   \<and> dedupe_rewrite_count (novelty_guard sample_nov (32 / 100) sample_rewrite 0
                        [sample_text_line (ascii ''abcdefgh'')]) \<le> 2
   \<and> sample_nov [sample_text_line (ascii ''xyz'')] \<ge> 32 / 100
   \<and> section_script (novelty_guard sample_nov (32 / 100) sample_rewrite 0
                        [sample_text_line (ascii ''xyz'')])
       = [sample_text_line (ascii ''xyz'')]"
proof -
  have h: "sample_nov [sample_text_line (ascii ''abcdefgh'')] < 32 / 100"
    "sample_nov (sample_rewrite 0 [sample_text_line (ascii ''abcdefgh'')]) < 32 / 100"
    "sample_nov [sample_text_line (ascii ''xyz'')] \<ge> 32 / 100"
    "sample_rewrite 0 [sample_text_line (ascii ''abcdefgh'')] \<noteq> []"
    "sample_rewrite 0 [sample_text_line (ascii ''abcdefgh'')] \<noteq> [sample_text_line (ascii ''abcdefgh'')]"
    "sample_rewrite 1 (sample_rewrite 0 [sample_text_line (ascii ''abcdefgh'')]) \<noteq> []"
    "sample_rewrite 1 (sample_rewrite 0 [sample_text_line (ascii ''abcdefgh'')])
       \<noteq> sample_rewrite 0 [sample_text_line (ascii ''abcdefgh'')]"
    by code_simp+
  from novelty_guard_bounded [of sample_nov "32 / 100" sample_rewrite 0 "[sample_text_line (ascii ''abcdefgh'')]"]
    novelty_guard_bounded [of sample_nov "32 / 100" sample_rewrite 0 "[sample_text_line (ascii ''xyz'')]"]
    h
  show ?thesis unfolding Let_def by (simp del: One_nat_def)
qed

text \<open>
  Claim C8 as stated fails: with the covered point \<open>abcdefgh\<close> and the threshold 0.32,
  the generated section scores 0, the first rewrite 0.2857 and the second rewrite 0.1429;
  the guard proceeds with the second rewrite, which is not the best of the attempts.
\<close>

theorem novelty_guard_not_best_counterexample:
  "sample_nov [sample_text_line (ascii ''abcdefgh'')] = 0
   \<and> sample_nov (sample_rewrite 0 [sample_text_line (ascii ''abcdefgh'')]) = 2857 / 10000
   \<and> section_script (novelty_guard sample_nov (32 / 100) sample_rewrite 0
                        [sample_text_line (ascii ''abcdefgh'')])
       = [sample_text_line (ascii ''abcdefghi'')]
   \<and> novelty (novelty_guard sample_nov (32 / 100) sample_rewrite 0
                        [sample_text_line (ascii ''abcdefgh'')]) = 1429 / 10000"
  by code_simp

section \<open>Properties of the agenda normalizer\<close>

lemma get_or_update: "get_or (AList.update k v al) k' dflt = (if k' = k then v else get_or al k' dflt)"
  by (simp add: get_or_def update_conv')

lemma get_or_Nil: "get_or [] k dflt = dflt"
  by (simp add: get_or_def)

lemma keys_update: "fst ` set (AList.update k v al) = insert k (fst ` set al)"
  by (simp add: dom_update)

lemma map_of_keys: "map_of al k = None \<longleftrightarrow> k \<notin> fst ` set al"
  by (simp add: map_of_eq_None_iff)

lemma init_indeg_keys: "fst ` set (fold (\<lambda>nid d. AList.update nid 0 d) ids d0) = set ids \<union> fst ` set d0"
  by (induction ids arbitrary: d0) (auto simp: keys_update)

lemma init_indeg_get:
  "get_or (fold (\<lambda>nid d. AList.update nid (0::int) d) ids d0) v 0 = (if v \<in> set ids then 0 else get_or d0 v 0)"
  by (induction ids arbitrary: d0) (auto simp: get_or_update)

lemma add_edges_graph:
  "get_or (fst (add_edges es g d)) u [] = get_or g u [] @ succs (edge_pairs es) u"
  by (induction es arbitrary: g d) (auto simp: Let_def get_or_update succs_def edge_pairs_def)

lemma setdefault_keys:
  "fst ` set (case map_of d k of None \<Rightarrow> AList.update k (0::int) d | Some x \<Rightarrow> d) = insert k (fst ` set d)"
proof (cases "map_of d k")
  case None
  then show ?thesis by (simp add: keys_update)
next
  case (Some x)
  then have "k \<in> fst ` set d" using map_of_keys [of d k] by simp
  with Some show ?thesis by auto
qed

lemma setdefault_get:
  "get_or (case map_of d k of None \<Rightarrow> AList.update k (0::int) d | Some x \<Rightarrow> d) v 0 = get_or d v 0"
proof (cases "map_of d k")
  case None
  then show ?thesis by (simp add: get_or_update) (simp add: get_or_def)
next
  case (Some x)
  then show ?thesis by simp
qed

lemma add_edges_keys:
  "fst ` set (snd (add_edges es g d))
     = fst ` set d \<union> fst ` set (edge_pairs es) \<union> snd ` set (edge_pairs es)"
proof (induction es arbitrary: g d)
  case Nil
  then show ?case by (simp add: edge_pairs_def)
next
  case (Cons e es)
  show ?case
    by (simp add: Let_def Cons.IH setdefault_keys keys_update edge_pairs_def) blast
qed

lemma add_edges_get:
  "get_or (snd (add_edges es g d)) v 0
     = get_or d v 0 + int (length (filter (\<lambda>p. snd p = v) (edge_pairs es)))"
proof (induction es arbitrary: g d)
  case Nil
  then show ?case by (simp add: edge_pairs_def)
next
  case (Cons e es)
  show ?case
    by (simp add: Let_def Cons.IH setdefault_get edge_pairs_def get_or_update)
qed


lemma relax_result:
  assumes "set xs \<subseteq> fst ` set indeg"
  shows "\<exists>indeg' enq. relax xs indeg q = Inr (indeg', q @ enq)
           \<and> fst ` set indeg' = fst ` set indeg
           \<and> (\<forall>v. get_or indeg' v 0 = get_or indeg v 0 - int (count_list xs v))
           \<and> distinct enq
           \<and> (\<forall>v \<in> set enq. v \<in> set xs \<and> 1 \<le> get_or indeg v 0
                  \<and> get_or indeg v 0 \<le> int (count_list xs v))"
  using assms
proof (induction xs arbitrary: indeg q)
  case Nil
  then show ?case by simp
next
  case (Cons nxt rest)
  from Cons.prems have "nxt \<in> fst ` set indeg" by simp
  then obtain d where d: "map_of indeg nxt = Some d"
    using map_of_keys [of indeg nxt] by auto
  then have gd: "get_or indeg nxt 0 = d" by (simp add: get_or_def)
  let ?indeg1 = "AList.update nxt (d - 1) indeg"
  let ?here = "if d - 1 = 0 then [nxt] else []"
  have keys1: "fst ` set ?indeg1 = fst ` set indeg"
    using \<open>nxt \<in> fst ` set indeg\<close> by (auto simp: keys_update)
  with Cons.prems have "set rest \<subseteq> fst ` set ?indeg1" by simp
  from Cons.IH [OF this, of "q @ ?here"]
  obtain indeg' enq where r: "relax rest ?indeg1 (q @ ?here) = Inr (indeg', (q @ ?here) @ enq)"
    and k: "fst ` set indeg' = fst ` set ?indeg1"
    and g: "\<forall>v. get_or indeg' v 0 = get_or ?indeg1 v 0 - int (count_list rest v)"
    and dist: "distinct enq"
    and b: "\<forall>v \<in> set enq. v \<in> set rest \<and> 1 \<le> get_or ?indeg1 v 0
                  \<and> get_or ?indeg1 v 0 \<le> int (count_list rest v)"
    by blast
  have step: "relax (nxt # rest) indeg q = Inr (indeg', q @ (?here @ enq))"
    using d r by (cases "d = 1") simp_all
  have g': "\<forall>v. get_or indeg' v 0 = get_or indeg v 0 - int (count_list (nxt # rest) v)"
    using g gd by (auto simp: get_or_update)
  have notin: "d - 1 = 0 \<Longrightarrow> nxt \<notin> set enq"
  proof
    assume "d - 1 = 0" and "nxt \<in> set enq"
    with b have "1 \<le> get_or ?indeg1 nxt 0" by blast
    with \<open>d - 1 = 0\<close> show False by (simp add: get_or_update)
  qed
  have dist': "distinct (?here @ enq)" using dist notin by simp
  have b': "\<forall>v \<in> set (?here @ enq). v \<in> set (nxt # rest) \<and> 1 \<le> get_or indeg v 0
                  \<and> get_or indeg v 0 \<le> int (count_list (nxt # rest) v)"
  proof
    fix v assume v: "v \<in> set (?here @ enq)"
    show "v \<in> set (nxt # rest) \<and> 1 \<le> get_or indeg v 0
                  \<and> get_or indeg v 0 \<le> int (count_list (nxt # rest) v)"
    proof (cases "v \<in> set enq")
      case True
      with b have b1: "v \<in> set rest" and b2: "1 \<le> get_or ?indeg1 v 0"
        and b3: "get_or ?indeg1 v 0 \<le> int (count_list rest v)" by blast+
      show ?thesis
      proof (cases "v = nxt")
        case True
        with b1 b2 b3 gd show ?thesis by (simp add: get_or_update)
      next
        case False
        with b1 b2 b3 show ?thesis by (simp add: get_or_update)
      qed
    next
      case False
      with v have "v = nxt" "d = 1" by (auto split: if_splits)
      then show ?thesis using gd by simp
    qed
  qed
  have k': "fst ` set indeg' = fst ` set indeg" using k keys1 by simp
  show ?case
  proof (intro exI conjI)
    show "relax (nxt # rest) indeg q = Inr (indeg', q @ (?here @ enq))" by (rule step)
    show "fst ` set indeg' = fst ` set indeg" by (rule k')
    show "\<forall>v. get_or indeg' v 0 = get_or indeg v 0 - int (count_list (nxt # rest) v)" by (rule g')
    show "distinct (?here @ enq)" by (rule dist')
    show "\<forall>v \<in> set (?here @ enq). v \<in> set (nxt # rest) \<and> 1 \<le> get_or indeg v 0
                  \<and> get_or indeg v 0 \<le> int (count_list (nxt # rest) v)" by (rule b')
  qed
qed

lemma kahn_loop_returns:
  assumes "\<forall>u. set (get_or graph u []) \<subseteq> fst ` set indeg"
  shows "\<exists>res. kahn_loop graph indeg q ordered = Inr res"
  using assms
proof (induction graph indeg q ordered rule: kahn_loop.induct)
  case (1 graph indeg ordered)
  then show ?case by simp
next
  case (2 graph indeg cur q ordered)
  from "2.prems" have "set (get_or graph cur []) \<subseteq> fst ` set indeg" by blast
  from relax_result [OF this, of q]
  obtain indeg' enq where r: "relax (get_or graph cur []) indeg q = Inr (indeg', q @ enq)"
    and k: "fst ` set indeg' = fst ` set indeg" by blast
  from "2.prems" k have "\<forall>u. set (get_or graph u []) \<subseteq> fst ` set indeg'" by simp
  from "2.IH" [OF r refl this] r show ?case by simp
qed

lemma topological_order_returns: "\<exists>ids. topological_order ns es = Inr ids \<and> length ids = length ns"
proof -
  let ?ids = "map node_id ns"
  let ?r = "add_edges es [] (init_indeg ?ids)"
  have "set (get_or (fst ?r) u []) \<subseteq> fst ` set (snd ?r)" for u
  proof -
    have "set (succs (edge_pairs es) u) \<subseteq> snd ` set (edge_pairs es)"
      by (auto simp: succs_def)
    then show ?thesis
      unfolding add_edges_graph add_edges_keys get_or_Nil by auto
  qed
  then have "\<forall>u. set (get_or (fst ?r) u []) \<subseteq> fst ` set (snd ?r)" by blast
  from kahn_loop_returns [OF this]
  obtain res where "kahn_loop (fst ?r) (snd ?r) (filter (\<lambda>nid. get_or (snd ?r) nid 0 = 0) ?ids) [] = Inr res"
    by blast
  then show ?thesis
    by (simp add: topological_order_def Let_def case_prod_beta)
qed


lemma indeg_of_insert:
  "cur \<notin> P \<Longrightarrow>
   indeg_of E (insert cur P) v = indeg_of E P v - int (count_list (succs E cur) v)"
  by (induction E) (auto simp: indeg_of_def succs_def)

lemma indeg_of_pos: "(u, v) \<in> set E \<Longrightarrow> u \<notin> P \<Longrightarrow> 1 \<le> indeg_of E P v"
proof -
  assume "(u, v) \<in> set E" and "u \<notin> P"
  then have "(u, v) \<in> set (filter (\<lambda>p. snd p = v \<and> fst p \<notin> P) E)" by simp
  then have "filter (\<lambda>p. snd p = v \<and> fst p \<notin> P) E \<noteq> []" by force
  then have "0 < length (filter (\<lambda>p. snd p = v \<and> fst p \<notin> P) E)"
    by simp
  then show ?thesis unfolding indeg_of_def by linarith
qed

lemma on_cycle_pred:
  assumes "v \<in> on_cycle E"
  shows "\<exists>u \<in> on_cycle E. (u, v) \<in> set E"
proof -
  from assms have "(v, v) \<in> (set E)\<^sup>+" by (simp add: on_cycle_def)
  then obtain u where vu: "(v, u) \<in> (set E)\<^sup>*" and uv: "(u, v) \<in> set E"
    by (auto dest: tranclD2)
  from uv vu have "(u, u) \<in> (set E)\<^sup>+" by (rule rtrancl_into_trancl2)
  with uv show ?thesis by (auto simp: on_cycle_def)
qed

lemma on_cycle_indeg:
  assumes "v \<in> on_cycle E" and "P \<inter> on_cycle E = {}"
  shows "1 \<le> indeg_of E P v"
proof -
  from on_cycle_pred [OF assms(1)] obtain u where "u \<in> on_cycle E" "(u, v) \<in> set E" by blast
  with assms(2) have "u \<notin> P" by blast
  with \<open>(u, v) \<in> set E\<close> show ?thesis by (rule indeg_of_pos)
qed

lemma kahn_loop_acyclic_part:
  assumes "\<forall>u. get_or graph u [] = succs E u" and "snd ` set E \<subseteq> K"
    and "kahn_inv E K indeg q ordered"
  shows "\<exists>res. kahn_loop graph indeg q ordered = Inr res \<and> distinct res \<and> set res \<subseteq> K
           \<and> set res \<inter> on_cycle E = {}"
  using assms
proof (induction graph indeg q ordered rule: kahn_loop.induct)
  case (1 graph indeg ordered)
  then show ?case by (simp add: kahn_inv_def)
next
  case (2 graph indeg cur q ordered)
  note inv = "2.prems"(3)
  let ?xs = "succs E cur"
  from inv have K: "fst ` set indeg = K"
    and dist: "distinct (ordered @ cur # q)"
    and sub: "set (ordered @ cur # q) \<subseteq> K"
    and nonpos: "\<forall>v \<in> set (ordered @ cur # q). get_or indeg v 0 \<le> 0"
    and cnt: "\<forall>v. v \<in> K \<longrightarrow> get_or indeg v 0 = indeg_of E (set ordered) v"
    and cyc: "set (ordered @ cur # q) \<inter> on_cycle E = {}"
    unfolding kahn_inv_def list_all_iff by blast+
  have xsK: "set ?xs \<subseteq> K" using "2.prems"(2) by (auto simp: succs_def)
  with K have "set ?xs \<subseteq> fst ` set indeg" by simp
  from relax_result [OF this, of q]
  obtain indeg' enq where r: "relax ?xs indeg q = Inr (indeg', q @ enq)"
    and k': "fst ` set indeg' = fst ` set indeg"
    and g': "\<forall>v. get_or indeg' v 0 = get_or indeg v 0 - int (count_list ?xs v)"
    and denq: "distinct enq"
    and benq: "\<forall>v \<in> set enq. v \<in> set ?xs \<and> 1 \<le> get_or indeg v 0
                  \<and> get_or indeg v 0 \<le> int (count_list ?xs v)"
    by blast
  have cur_new: "cur \<notin> set ordered" using dist by simp
  have cnt': "\<forall>v. v \<in> K \<longrightarrow> get_or indeg' v 0 = indeg_of E (set (ordered @ [cur])) v"
    using cnt g' indeg_of_insert [OF cur_new, of E] by simp
  have fresh: "set enq \<inter> set (ordered @ cur # q) = {}"
  proof -
    have "v \<notin> set (ordered @ cur # q)" if "v \<in> set enq" for v
    proof
      assume "v \<in> set (ordered @ cur # q)"
      with nonpos have "get_or indeg v 0 \<le> 0" by blast
      moreover from benq that have "1 \<le> get_or indeg v 0" by blast
      ultimately show False by simp
    qed
    then show ?thesis by blast
  qed
  have dist': "distinct ((ordered @ [cur]) @ q @ enq)"
    using dist denq fresh by auto
  have sub': "set ((ordered @ [cur]) @ q @ enq) \<subseteq> K"
    using sub benq xsK by auto
  have nonpos': "\<forall>v \<in> set ((ordered @ [cur]) @ q @ enq). get_or indeg' v 0 \<le> 0"
  proof
    fix v assume v: "v \<in> set ((ordered @ [cur]) @ q @ enq)"
    show "get_or indeg' v 0 \<le> 0"
    proof (cases "v \<in> set enq")
      case True
      with benq have "get_or indeg v 0 \<le> int (count_list ?xs v)" by blast
      with g' show ?thesis by simp
    next
      case False
      with v have "v \<in> set (ordered @ cur # q)" by auto
      with nonpos have "get_or indeg v 0 \<le> 0" by blast
      with g' show ?thesis by simp
    qed
  qed
  have cyc0: "set (ordered @ [cur]) \<inter> on_cycle E = {}" using cyc by auto
  have cyc': "set ((ordered @ [cur]) @ q @ enq) \<inter> on_cycle E = {}"
  proof -
    have "v \<notin> on_cycle E" if "v \<in> set enq" for v
    proof
      assume "v \<in> on_cycle E"
      from on_cycle_indeg [OF this cyc0] have "1 \<le> indeg_of E (set (ordered @ [cur])) v" .
      moreover from that sub' have "v \<in> K" by auto
      ultimately have "1 \<le> get_or indeg' v 0" using cnt' by simp
      moreover from that nonpos' have "get_or indeg' v 0 \<le> 0" by simp
      ultimately show False by simp
    qed
    with cyc show ?thesis by auto
  qed
  have inv': "kahn_inv E K indeg' (q @ enq) (ordered @ [cur])"
    unfolding kahn_inv_def list_all_iff
    using k' K dist' sub' nonpos' cnt' cyc' by blast
  have r': "relax (get_or graph cur []) indeg q = Inr (indeg', q @ enq)"
    using r "2.prems"(1) by simp
  from "2.IH" [OF r' refl "2.prems"(1,2) inv'] r' show ?case by simp
qed


lemma topological_order_cyclic:
  assumes dist: "distinct (map node_id ns)"
    and filtered: "\<forall>e \<in> set es. e_from e \<in> node_id ` set ns \<and> e_to e \<in> node_id ` set ns"
    and cyclic: "on_cycle (edge_pairs es) \<noteq> {}"
  shows "topological_order ns es = Inr (map node_id ns)"
proof -
  let ?ids = "map node_id ns"
  let ?E = "edge_pairs es"
  let ?K = "set ?ids"
  let ?r = "add_edges es [] (init_indeg ?ids)"
  let ?g = "fst ?r"
  let ?d = "snd ?r"
  let ?q = "filter (\<lambda>nid. get_or ?d nid 0 = 0) ?ids"
  have ends: "fst ` set ?E \<subseteq> ?K" "snd ` set ?E \<subseteq> ?K"
    using filtered by (auto simp: edge_pairs_def)
  have graph: "\<forall>u. get_or ?g u [] = succs ?E u"
    by (simp add: add_edges_graph get_or_Nil)
  have keys: "fst ` set ?d = ?K"
    using ends by (auto simp: add_edges_keys init_indeg_def init_indeg_keys)
  have val: "get_or ?d v 0 = indeg_of ?E {} v" if "v \<in> ?K" for v
    using that by (simp add: add_edges_get init_indeg_def init_indeg_get get_or_Nil indeg_of_def)
  have nocyc: "v \<notin> on_cycle ?E" if "v \<in> set ?q" for v
  proof
    assume c: "v \<in> on_cycle ?E"
    from that have "v \<in> ?K" and z: "get_or ?d v 0 = 0" by auto
    from on_cycle_indeg [OF c, of "{}"] val [OF \<open>v \<in> ?K\<close>] z show False by simp
  qed
  have inv: "kahn_inv ?E ?K ?d ?q []"
    unfolding kahn_inv_def list_all_iff
    using keys dist val nocyc by (auto simp: distinct_map_filter)
  from kahn_loop_acyclic_part [OF graph ends(2) inv]
  obtain res where res: "kahn_loop ?g ?d ?q [] = Inr res" and dres: "distinct res"
    and sres: "set res \<subseteq> ?K" and cres: "set res \<inter> on_cycle ?E = {}" by blast
  from cyclic obtain v where v: "v \<in> on_cycle ?E" by blast
  from on_cycle_pred [OF v] ends(2) have "v \<in> ?K" by force
  with v cres sres have "set res \<subset> ?K" by blast
  then have "card (set res) < card ?K" by (intro psubset_card_mono) simp_all
  moreover have "card (set res) = length res" using dres by (rule distinct_card)
  moreover have "card ?K = length ?ids" using dist by (rule distinct_card)
  ultimately have "length res < length ?ids" by simp
  with res show ?thesis
    by (simp add: topological_order_def Let_def case_prod_beta)
qed

lemma last_neq: "last xs \<noteq> last ys \<Longrightarrow> xs \<noteq> ys"
  by auto

lemma pad_templates_distinct: "distinct (map fst (pad_templates tp))"
proof -
  have "tp @ [0x306E, 0x80CC, 0x666F] \<noteq> [0x5B9F, 0x52D9, 0x3067, 0x306E, 0x518D, 0x8A55, 0x4FA1]"
    "tp @ [0x306E, 0x80CC, 0x666F] \<noteq> [0x53CD, 0x5BFE, 0x8AD6, 0x3068, 0x5236, 0x7D04]"
    "tp @ [0x306E, 0x4E3B, 0x306A, 0x8981, 0x56E0] \<noteq> [0x5B9F, 0x52D9, 0x3067, 0x306E, 0x518D, 0x8A55, 0x4FA1]"
    "tp @ [0x306E, 0x4E3B, 0x306A, 0x8981, 0x56E0] \<noteq> [0x53CD, 0x5BFE, 0x8AD6, 0x3068, 0x5236, 0x7D04]"
    "tp @ [0x306E, 0x5F71, 0x97FF] \<noteq> [0x5B9F, 0x52D9, 0x3067, 0x306E, 0x518D, 0x8A55, 0x4FA1]"
    "tp @ [0x306E, 0x5F71, 0x97FF] \<noteq> [0x53CD, 0x5BFE, 0x8AD6, 0x3068, 0x5236, 0x7D04]"
    by (rule last_neq, simp)+
  then show ?thesis by (simp add: pad_templates_def)
qed

lemma pad_nodes_length:
  assumes "distinct (map fst tpls)"
  shows "length (pad_nodes tpls ex nid ns)
         = (if length ns \<ge> 5 then length ns
            else min 5 (length ns + length (filter (\<lambda>t. fst t \<notin> ex) tpls)))"
  using assms
proof (induction tpls arbitrary: ex nid ns)
  case Nil
  then show ?case by simp
next
  case (Cons tpl tpls)
  from Cons.prems have d: "distinct (map fst tpls)" and n: "fst tpl \<notin> fst ` set tpls" by auto
  have same: "filter (\<lambda>t. fst t \<notin> insert (fst tpl) ex) tpls = filter (\<lambda>t. fst t \<notin> ex) tpls"
  proof (rule filter_cong [OF refl])
    fix t assume "t \<in> set tpls"
    then have "fst t \<in> fst ` set tpls" by (rule imageI)
    with n have "fst t \<noteq> fst tpl" by metis
    then show "(fst t \<notin> insert (fst tpl) ex) = (fst t \<notin> ex)" by simp
  qed
  show ?case
    using Cons.IH [OF d] same by (auto simp: min_def)
qed

lemma templates_available:
  assumes "distinct (map fst tpls)"
  shows "length tpls \<le> length (filter (\<lambda>t. fst t \<notin> set titles) tpls) + length titles"
proof -
  let ?in = "filter (\<lambda>t. fst t \<in> set titles) tpls"
  have "distinct (map fst ?in)" using assms by (rule distinct_map_filter)
  then have "length ?in = card (set (map fst ?in))"
    by (metis distinct_card length_map)
  also have "\<dots> \<le> card (set titles)" by (intro card_mono) auto
  also have "\<dots> \<le> length titles" by (rule card_length)
  finally have "length ?in \<le> length titles" .
  moreover have "length tpls = length ?in + length (filter (\<lambda>t. fst t \<notin> set titles) tpls)"
    using sum_length_filter_compl [of "\<lambda>t. fst t \<in> set titles" tpls] by simp
  ultimately show ?thesis by simp
qed

lemma normalized_node_count:
  "let ns0 = collect_nodes 0 raw;
       ns1 = (if length ns0 > 7 then take 7 ns0 else ns0);
       ns2 = (if length ns1 < 5
              then pad_nodes (pad_templates tp) (set (map node_title ns1)) (length ns1 + 1) ns1
              else ns1)
   in 5 \<le> length ns2 \<and> length ns2 \<le> 7"
proof -
  let ?ns0 = "collect_nodes 0 raw"
  let ?ns1 = "if length ?ns0 > 7 then take 7 ?ns0 else ?ns0"
  have l1: "length ?ns1 \<le> 7" by simp
  have five: "length (pad_templates tp) = 5" by (simp add: pad_templates_def)
  from templates_available [OF pad_templates_distinct, of tp "map node_title ?ns1"] five
  have av: "5 \<le> length (filter (\<lambda>t. fst t \<notin> set (map node_title ?ns1)) (pad_templates tp)) + length ?ns1"
    by simp
  have pl: "length (pad_nodes (pad_templates tp) (set (map node_title ?ns1)) (length ?ns1 + 1) ?ns1)
        = (if length ?ns1 \<ge> 5 then length ?ns1
           else min 5 (length ?ns1 + length (filter (\<lambda>t. fst t \<notin> set (map node_title ?ns1)) (pad_templates tp))))"
    by (rule pad_nodes_length [OF pad_templates_distinct])
  show ?thesis
  proof (cases "length ?ns1 < 5")
    case True
    with av pl have "length (pad_nodes (pad_templates tp) (set (map node_title ?ns1)) (length ?ns1 + 1) ?ns1) = 5"
      by (simp add: min_def)
    with True show ?thesis unfolding Let_def by simp
  next
    case False
    with l1 show ?thesis unfolding Let_def by simp
  qed
qed

lemma normalize_agenda_shape:
  "\<exists>a. normalize_agenda ag tp = Inr a \<and> 5 \<le> length (nodes a) \<and> length (nodes a) \<le> 7
       \<and> length (ordered_node_ids a) = length (nodes a)"
proof -
  let ?ns0 = "collect_nodes 0 (nodes_raw ag)"
  let ?ns1 = "if length ?ns0 > 7 then take 7 ?ns0 else ?ns0"
  let ?ns2 = "if length ?ns1 < 5
              then pad_nodes (pad_templates tp) (set (map node_title ?ns1)) (length ?ns1 + 1) ?ns1
              else ?ns1"
  let ?es2 = "collect_edges (set (map node_id ?ns2)) (edges_raw ag)"
  from normalized_node_count [of "nodes_raw ag" tp]
  have cnt: "5 \<le> length ?ns2" "length ?ns2 \<le> 7" unfolding Let_def by blast+
  then have ne: "?ns2 \<noteq> []" by auto
  from topological_order_returns [of ?ns2 ?es2]
  obtain ids where ids: "topological_order ?ns2 ?es2 = Inr ids" "length ids = length ?ns2" by blast
  have "normalize_agenda ag tp =
          Inr \<lparr> a_topic = tp, nodes = ?ns2, edges = ?es2, ordered_node_ids = ids,
                chapters = build_chapters_from_ordered_nodes ?ns2 ids \<rparr>"
    unfolding normalize_agenda_def Let_def using ne ids(1) by simp
  with cnt ids(2) show ?thesis by simp
qed


text \<open>
  Claim C5, as amended. For every raw node/edge input (usable nodes or not) the agenda
  normalizer returns an agenda, with between 5 and 7 nodes and with an
  \<open>ordered_node_ids\<close> list as long as the node list. \<open>topological_order\<close> never
  raises, on any nodes and edges. When the node ids are pairwise distinct and the edges
  run between these ids, a cyclic edge set makes it return the nodes' original insertion
  order.
\<close>

theorem agenda_shape_and_cycle_fallback:
  "(\<exists>a. normalize_agenda ag tp = Inr a \<and> 5 \<le> length (nodes a) \<and> length (nodes a) \<le> 7
        \<and> length (ordered_node_ids a) = length (nodes a))
   \<and> (\<exists>ids. topological_order ns es = Inr ids \<and> length ids = length ns)
   \<and> (distinct (map node_id ns)
        \<and> list_all (\<lambda>e. e_from e \<in> node_id ` set ns \<and> e_to e \<in> node_id ` set ns) es
        \<and> on_cycle (edge_pairs es) \<noteq> {}
        \<longrightarrow> topological_order ns es = Inr (map node_id ns))"
proof (intro conjI impI)
  show "\<exists>a. normalize_agenda ag tp = Inr a \<and> 5 \<le> length (nodes a) \<and> length (nodes a) \<le> 7
        \<and> length (ordered_node_ids a) = length (nodes a)"
    by (rule normalize_agenda_shape)
  show "\<exists>ids. topological_order ns es = Inr ids \<and> length ids = length ns"
    by (rule topological_order_returns)
  assume h: "distinct (map node_id ns)
        \<and> list_all (\<lambda>e. e_from e \<in> node_id ` set ns \<and> e_to e \<in> node_id ` set ns) es
        \<and> on_cycle (edge_pairs es) \<noteq> {}"
  then show "topological_order ns es = Inr (map node_id ns)"
    by (intro topological_order_cyclic) (simp_all add: list_all_iff)
qed

theorem agenda_shape_and_cycle_fallback_witness:
  "map_sum id agenda_summary (normalize_agenda sample_cyclic_agenda (ascii ''t''))
     = Inr ([ascii ''a'', ascii ''b'', ascii ''c'', ascii ''n4'', ascii ''n5''],
            [ascii ''a'', ascii ''b'', ascii ''c'', ascii ''n4'', ascii ''n5''],
            [(ascii ''a'', ascii ''b''), (ascii ''b'', ascii ''c''), (ascii ''c'', ascii ''b'')])
   \<and> distinct (map node_id [sample_node ''a'', sample_node ''b'', sample_node ''c''])
   \<and> list_all (\<lambda>e. e_from e \<in> node_id ` set [sample_node ''a'', sample_node ''b'', sample_node ''c'']
                  \<and> e_to e \<in> node_id ` set [sample_node ''a'', sample_node ''b'', sample_node ''c''])
        [sample_edge ''a'' ''b'', sample_edge ''b'' ''c'', sample_edge ''c'' ''b'']
   \<and> on_cycle (edge_pairs [sample_edge ''a'' ''b'', sample_edge ''b'' ''c'', sample_edge ''c'' ''b'']) \<noteq> {}
   \<and> topological_order [sample_node ''a'', sample_node ''b'', sample_node ''c'']
        [sample_edge ''a'' ''b'', sample_edge ''b'' ''c'', sample_edge ''c'' ''b'']
       = Inr [ascii ''a'', ascii ''b'', ascii ''c'']"
proof -
  let ?ns = "[sample_node ''a'', sample_node ''b'', sample_node ''c'']"
  let ?es = "[sample_edge ''a'' ''b'', sample_edge ''b'' ''c'', sample_edge ''c'' ''b'']"
  have ev: "map_sum id agenda_summary (normalize_agenda sample_cyclic_agenda (ascii ''t''))
     = Inr ([ascii ''a'', ascii ''b'', ascii ''c'', ascii ''n4'', ascii ''n5''],
            [ascii ''a'', ascii ''b'', ascii ''c'', ascii ''n4'', ascii ''n5''],
            [(ascii ''a'', ascii ''b''), (ascii ''b'', ascii ''c''), (ascii ''c'', ascii ''b'')])"
    by code_simp
  have h1: "distinct (map node_id ?ns)" by code_simp
  have h2: "list_all (\<lambda>e. e_from e \<in> node_id ` set ?ns \<and> e_to e \<in> node_id ` set ?ns) ?es"
    by code_simp
  have "(ascii ''b'', ascii ''c'') \<in> set (edge_pairs ?es)" "(ascii ''c'', ascii ''b'') \<in> set (edge_pairs ?es)"
    by (simp_all add: edge_pairs_def sample_edge_def)
  then have "(ascii ''b'', ascii ''b'') \<in> (set (edge_pairs ?es))\<^sup>+"
    by (rule trancl.intros(2) [OF trancl.intros(1)])
  then have h3: "on_cycle (edge_pairs ?es) \<noteq> {}" by (auto simp: on_cycle_def)
  have ids: "map node_id ?ns = [ascii ''a'', ascii ''b'', ascii ''c'']" by code_simp
  from agenda_shape_and_cycle_fallback [of sample_cyclic_agenda "ascii ''t''" ?ns ?es] h1 h2 h3
  have "topological_order ?ns ?es = Inr (map node_id ?ns)" by blast
  then have t: "topological_order ?ns ?es = Inr [ascii ''a'', ascii ''b'', ascii ''c'']"
    unfolding ids .
  show ?thesis
    by (intro conjI) (rule ev h1 h2 h3 t)+
qed

text \<open>
  Claim C5 as stated fails when two nodes carry one id: the normalizer keeps the five
  nodes with the ids a, a, c, b, d and the cyclic edges b to c and c to b, and the order
  it returns is a, a, d, b, c, which is not the insertion order.
\<close>

theorem duplicate_ids_break_cycle_fallback_counterexample:
  "map_sum id agenda_summary (normalize_agenda sample_dup_agenda (ascii ''t''))
     = Inr ([ascii ''a'', ascii ''a'', ascii ''c'', ascii ''b'', ascii ''d''],
            [ascii ''a'', ascii ''a'', ascii ''d'', ascii ''b'', ascii ''c''],
            [(ascii ''a'', ascii ''b''), (ascii ''b'', ascii ''c''), (ascii ''c'', ascii ''b'')])
   \<and> (ascii ''b'', ascii ''b'')
        \<in> (set [(ascii ''a'', ascii ''b''), (ascii ''b'', ascii ''c''), (ascii ''c'', ascii ''b'')])\<^sup>+"
proof (rule conjI)
  show "map_sum id agenda_summary (normalize_agenda sample_dup_agenda (ascii ''t''))
     = Inr ([ascii ''a'', ascii ''a'', ascii ''c'', ascii ''b'', ascii ''d''],
            [ascii ''a'', ascii ''a'', ascii ''d'', ascii ''b'', ascii ''c''],
            [(ascii ''a'', ascii ''b''), (ascii ''b'', ascii ''c''), (ascii ''c'', ascii ''b'')])"
    by code_simp
  have "(ascii ''b'', ascii ''c'') \<in> set [(ascii ''a'', ascii ''b''), (ascii ''b'', ascii ''c''), (ascii ''c'', ascii ''b'')]"
    "(ascii ''c'', ascii ''b'') \<in> set [(ascii ''a'', ascii ''b''), (ascii ''b'', ascii ''c''), (ascii ''c'', ascii ''b'')]"
    by simp_all
  then show "(ascii ''b'', ascii ''b'')
        \<in> (set [(ascii ''a'', ascii ''b''), (ascii ''b'', ascii ''c''), (ascii ''c'', ascii ''b'')])\<^sup>+"
    by (rule trancl.intros(2) [OF trancl.intros(1)])
qed





end
